theory Spec2Isabelle
  imports
    Complex_Main
    "HOL-Library.Word"
    "HOL-Library.Multiset"
    "HOL-Library.AList"
    "HOL-Library.Char_ord"
    "HOL-Library.List_Lexorder"
begin

section \<open>Data model (models/trade.go)\<close>

text \<open>
  A Go \<^verbatim>\<open>time.Time\<close> is an instant together with a location. The instant is kept as
  Unix nanoseconds; of the location only the offset it gives at that instant is kept
  (seconds east of UTC), which is all that \<^verbatim>\<open>Format\<close> reads. \<^verbatim>\<open>float64\<close> values
  are modelled as exact reals, Go's \<^verbatim>\<open>int\<close> as an integer (64 bits where the code
  multiplies it into a Duration), \<^verbatim>\<open>int64\<close> timestamps of the API as 64-bit words.
\<close>

type_synonym int64 = "64 word"

record Time =
  unixNano :: int
  zoneOffset :: int

record Trade =
  Time :: Time
  Coin :: string
  Side :: string
  Price :: real
  Size :: real
  Value :: real

record DailyPnL =
  Date :: string
  TradeCount :: int
  DailyPnL :: real
  CumulativePnL :: real

record PnLSummary =
  DailyRecords :: "DailyPnL list"
  TotalPnL :: real

record Position =
  BuyValue :: real
  SellValue :: real

section \<open>The parts of Go's time and fmt packages the services use\<close>

definition Hour :: int where
  "Hour = 3600000000000"

text \<open>\<^verbatim>\<open>t.UnixMilli()\<close>: milliseconds since the epoch, rounded down, as an int64.\<close>

definition UnixMilli :: "Time \<Rightarrow> int64" where
  "UnixMilli t = word_of_int (unixNano t div 1000000)"

text \<open>\<^verbatim>\<open>time.UnixMilli(ms)\<close> yields a Time in the process's local zone; \<open>Local\<close> gives
  the offset of that zone at a Unix second.\<close>

type_synonym Location = "int \<Rightarrow> int"

definition TimeOfUnixMilli :: "Location \<Rightarrow> int64 \<Rightarrow> Time" where
  "TimeOfUnixMilli Local ms =
     \<lparr>unixNano = sint ms * 1000000, zoneOffset = Local (sint ms div 1000)\<rparr>"

definition Before :: "Time \<Rightarrow> Time \<Rightarrow> bool" where
  "Before t u \<longleftrightarrow> unixNano t < unixNano u"

definition After :: "Time \<Rightarrow> Time \<Rightarrow> bool" where
  "After t u \<longleftrightarrow> unixNano t > unixNano u"

definition Equal :: "Time \<Rightarrow> Time \<Rightarrow> bool" where
  "Equal t u \<longleftrightarrow> unixNano t = unixNano u"

text \<open>\<^verbatim>\<open>t.IsZero()\<close>: the instant January 1, year 1, 00:00:00 UTC.\<close>

definition IsZero :: "Time \<Rightarrow> bool" where
  "IsZero t \<longleftrightarrow> unixNano t = - 62135596800 * 1000000000"

text \<open>\<^verbatim>\<open>t.Sub(u)\<close> is a Duration (int64 nanoseconds), saturating at its bounds.\<close>

definition Sub :: "Time \<Rightarrow> Time \<Rightarrow> int" where
  "Sub t u = max (- (2 ^ 63)) (min (2 ^ 63 - 1) (unixNano t - unixNano u))"

definition Add :: "Time \<Rightarrow> int \<Rightarrow> Time" where
  "Add t d = t\<lparr>unixNano := unixNano t + d\<rparr>"

text \<open>\<^verbatim>\<open>-time.Duration(days) * 24 * time.Hour\<close>, computed in int64 (wrapping).\<close>

definition minusDays :: "int \<Rightarrow> int" where
  "minusDays days = sint (- (word_of_int days :: int64) * 24 * 3600000000000)"

text \<open>Decimal digits of a natural number (\<^verbatim>\<open>%d\<close>, and the digits of \<^verbatim>\<open>appendInt\<close>).\<close>

fun digits :: "nat \<Rightarrow> string" where
  "digits n =
     (if n < 10 then [''0123456789'' ! n]
      else digits (n div 10) @ [''0123456789'' ! (n mod 10)])"

declare digits.simps [simp del]

definition formatInt :: "int \<Rightarrow> string" where
  "formatInt x = (if x < 0 then ''-'' else '''') @ digits (nat \<bar>x\<bar>)"

text \<open>\<^verbatim>\<open>appendInt(b, x, width)\<close> of package time: sign, then the digits padded with
  zeros to the width.\<close>

definition appendInt :: "int \<Rightarrow> nat \<Rightarrow> string" where
  "appendInt x width =
     (let ds = digits (nat \<bar>x\<bar>)
      in (if x < 0 then ''-'' else '''') @ replicate (width - length ds) CHR ''0'' @ ds)"

text \<open>
  The civil date of a day number counted from 1970-01-01, in the proleptic Gregorian
  calendar of \<^verbatim>\<open>Time.Date\<close>, computed the way package time does: cut off the cycles
  of 400, 100, 4 and 1 years, then find the month in the table \<^verbatim>\<open>daysBefore\<close>.
\<close>

definition isLeap :: "int \<Rightarrow> bool" where
  "isLeap year \<longleftrightarrow> year mod 4 = 0 \<and> (year mod 100 \<noteq> 0 \<or> year mod 400 = 0)"

definition daysBefore :: "int \<Rightarrow> int" where
  "daysBefore month = [0, 31, 59, 90, 120, 151, 181, 212, 243, 273, 304, 334, 365] ! nat month"

definition yearAndDay :: "int \<Rightarrow> int \<times> int" where
  "yearAndDay days =
     (let d = days + 719162;
          n400 = d div 146097;
          d = d - 146097 * n400;
          n100 = d div 36524;
          n100 = n100 - n100 div 4;
          d = d - 36524 * n100;
          n4 = d div 1461;
          d = d - 1461 * n4;
          n1 = d div 365;
          n1 = n1 - n1 div 4;
          d = d - 365 * n1
      in (400 * n400 + 100 * n100 + 4 * n4 + n1 + 1, d))"

definition monthAndDay :: "int \<Rightarrow> int \<Rightarrow> int \<times> int" where
  "monthAndDay year yday =
     (if isLeap year \<and> yday = 59 then (2, 29)
      else
        let day = (if isLeap year \<and> yday > 59 then yday - 1 else yday);
            month = day div 31;
            end = daysBefore (month + 1)
        in if day \<ge> end then (month + 2, day - end + 1)
           else (month + 1, day - daysBefore month + 1))"

definition civilFromDays :: "int \<Rightarrow> int \<times> int \<times> int" where
  "civilFromDays days =
     (case yearAndDay days of
        (year, yday) \<Rightarrow>
          (case monthAndDay year yday of (month, day) \<Rightarrow> (year, month, day)))"

text \<open>The day number of a Time in its own location.\<close>

definition localDay :: "Time \<Rightarrow> int" where
  "localDay t = (unixNano t div 1000000000 + zoneOffset t) div 86400"

text \<open>\<^verbatim>\<open>t.Format("2006-01-02")\<close>: the date in the location of \<open>t\<close>.\<close>

definition formatDate :: "int \<times> int \<times> int \<Rightarrow> string" where
  "formatDate ymd =
     (case ymd of
        (y, m, d) \<Rightarrow> appendInt y 4 @ ''-'' @ appendInt m 2 @ ''-'' @ appendInt d 2)"

definition FormatDate :: "Time \<Rightarrow> string" where
  "FormatDate t = formatDate (civilFromDays (localDay t))"

section \<open>Go maps\<close>

text \<open>
  A Go map that the code ranges over is an association list with distinct keys. The
  order in which \<^verbatim>\<open>range\<close> visits it is not fixed by the language: an order \<open>\<rho>\<close> gives,
  for a map of \<open>n\<close> entries, the sequence of positions visited.
\<close>

type_synonym order = "nat \<Rightarrow> nat list"

definition valid_order :: "order \<Rightarrow> bool" where
  "valid_order \<rho> \<longleftrightarrow> (\<forall>n. mset (\<rho> n) = mset [0..<n])"

definition rangeOver :: "order \<Rightarrow> 'a list \<Rightarrow> 'a list" where
  "rangeOver \<rho> m = map (\<lambda>i. m ! i) (\<rho> (length m))"

definition inOrder :: order where
  "inOrder n = [0..<n]"

definition reverseOrder :: order where
  "reverseOrder n = rev [0..<n]"

section \<open>P&L aggregation (services: calculatePnLForDay, calculateDailyPnLFromTrades)\<close>

definition zeroPosition :: Position where
  "zeroPosition = \<lparr>BuyValue = 0, SellValue = 0\<rparr>"

text \<open>One iteration of the loop over the day's trades in \<^verbatim>\<open>calculatePnLForDay\<close>.\<close>

definition positionStep :: "(string \<times> Position) list \<Rightarrow> Trade \<Rightarrow> (string \<times> Position) list" where
  "positionStep coinPositions trade =
     (let cp = (if map_of coinPositions (Coin trade) = None
                then AList.update (Coin trade) zeroPosition coinPositions
                else coinPositions)
      in if Side trade = ''B''
         then AList.map_entry (Coin trade) (\<lambda>p. p\<lparr>BuyValue := BuyValue p + Value trade\<rparr>) cp
         else if Side trade = ''A''
         then AList.map_entry (Coin trade) (\<lambda>p. p\<lparr>SellValue := SellValue p + Value trade\<rparr>) cp
         else cp)"

fun positionsOf :: "(string \<times> Position) list \<Rightarrow> Trade list \<Rightarrow> (string \<times> Position) list" where
  "positionsOf coinPositions [] = coinPositions"
| "positionsOf coinPositions (trade # rest) = positionsOf (positionStep coinPositions trade) rest"

fun sumPositions :: "real \<Rightarrow> (string \<times> Position) list \<Rightarrow> real" where
  "sumPositions totalPnL [] = totalPnL"
| "sumPositions totalPnL ((coin, pos) # rest) =
     sumPositions (totalPnL + (SellValue pos - BuyValue pos)) rest"

definition calculatePnLForDay :: "order \<Rightarrow> Trade list \<Rightarrow> real" where
  "calculatePnLForDay \<rho> trades = sumPositions 0 (rangeOver \<rho> (positionsOf [] trades))"

text \<open>The first loop of \<^verbatim>\<open>calculateDailyPnLFromTrades\<close>: append each trade to the
  slice stored under its date.\<close>

fun groupByDate :: "(string \<times> Trade list) list \<Rightarrow> Trade list \<Rightarrow> (string \<times> Trade list) list" where
  "groupByDate tradesByDate [] = tradesByDate"
| "groupByDate tradesByDate (trade # rest) =
     (let dateKey = FormatDate (Time trade);
          sofar = (case map_of tradesByDate dateKey of None \<Rightarrow> [] | Some ts \<Rightarrow> ts)
      in groupByDate (AList.update dateKey (sofar @ [trade]) tradesByDate) rest)"

text \<open>The second loop: one record per date.\<close>

fun dailyRecords :: "order \<Rightarrow> (string \<times> DailyPnL) list \<Rightarrow> (string \<times> Trade list) list
    \<Rightarrow> (string \<times> DailyPnL) list" where
  "dailyRecords \<rho> daily [] = daily"
| "dailyRecords \<rho> daily ((date, dayTrades) # rest) =
     dailyRecords \<rho>
       (AList.update date
          \<lparr>Date = date, TradeCount = int (length dayTrades),
           DailyPnL = calculatePnLForDay \<rho> dayTrades, CumulativePnL = 0\<rparr> daily)
       rest"

definition calculateDailyPnLFromTrades :: "order \<Rightarrow> Trade list \<Rightarrow> (string \<times> DailyPnL) list" where
  "calculateDailyPnLFromTrades \<rho> trades =
     dailyRecords \<rho> [] (rangeOver \<rho> (groupByDate [] trades))"

section \<open>Reading the summary (services: GetPnLSummary)\<close>

text \<open>
  \<^verbatim>\<open>sort.Slice\<close> is not stable and the records come out of a map in any order; every
  result it can give (any arrangement with the dates descending) is the reversed stable
  sort of the records taken in some order \<open>\<rho>\<close>.
\<close>

definition sortByDateDesc :: "DailyPnL list \<Rightarrow> DailyPnL list" where
  "sortByDateDesc records = rev (sort_key Date records)"

text \<open>The loop \<^verbatim>\<open>for i := len(records) - 1; i >= 0; i--\<close>, as a pass over the reversed
  slice.\<close>

fun cumulate :: "real \<Rightarrow> DailyPnL list \<Rightarrow> DailyPnL list" where
  "cumulate cumulative [] = []"
| "cumulate cumulative (record # rest) =
     record\<lparr>CumulativePnL := cumulative + DailyPnL record\<rparr>
       # cumulate (cumulative + DailyPnL record) rest"

fun sumDaily :: "real \<Rightarrow> DailyPnL list \<Rightarrow> real" where
  "sumDaily totalPnL [] = totalPnL"
| "sumDaily totalPnL (record # rest) = sumDaily (totalPnL + DailyPnL record) rest"

definition GetPnLSummary :: "order \<Rightarrow> (string \<times> DailyPnL) list \<Rightarrow> PnLSummary" where
  "GetPnLSummary \<rho> dailyPnL =
     (let records = sortByDateDesc (map snd (rangeOver \<rho> dailyPnL));
          records = rev (cumulate 0 (rev records))
      in \<lparr>DailyRecords = records, TotalPnL = sumDaily 0 records\<rparr>)"

section \<open>Merge and filter (services: mergeTrades, filterTradesByTime)\<close>

text \<open>The map key \<^verbatim>\<open>fmt.Sprintf("%d_%s_%s", trade.Time.UnixMilli(), trade.Coin, trade.Side)\<close>.\<close>

definition tradeKey :: "Trade \<Rightarrow> string" where
  "tradeKey trade =
     formatInt (sint (UnixMilli (Time trade))) @ ''_'' @ Coin trade @ ''_'' @ Side trade"

fun putTrades :: "(string \<times> Trade) list \<Rightarrow> Trade list \<Rightarrow> (string \<times> Trade) list" where
  "putTrades tradeMap [] = tradeMap"
| "putTrades tradeMap (trade # rest) =
     putTrades (AList.update (tradeKey trade) trade tradeMap) rest"

text \<open>\<^verbatim>\<open>sort.Slice\<close> with \<^verbatim>\<open>Time.Before\<close>; as above, the choice among equal times is
  in the order \<open>\<rho>\<close> of \<open>mergeTrades\<close>.\<close>

definition sortByTime :: "Trade list \<Rightarrow> Trade list" where
  "sortByTime merged = sort_key (\<lambda>trade. unixNano (Time trade)) merged"

definition mergeTrades :: "order \<Rightarrow> Trade list \<Rightarrow> Trade list \<Rightarrow> Trade list" where
  "mergeTrades \<rho> existing new =
     (let tradeMap = putTrades (putTrades [] existing) new
      in sortByTime (map snd (rangeOver \<rho> tradeMap)))"

definition filterTradesByTime :: "Trade list \<Rightarrow> Time \<Rightarrow> Trade list" where
  "filterTradesByTime trades cutoffTime =
     filter (\<lambda>trade. After (Time trade) cutoffTime \<or> Equal (Time trade) cutoffTime) trades"

section \<open>Trade source (services: FetchTradesInRange, FetchTrades, convertFillToTrade)\<close>

text \<open>
  A fill as decoded from the API. \<open>fillPx\<close> and \<open>fillSz\<close> hold what
  \<^verbatim>\<open>strconv.ParseFloat\<close> makes of the string fields, \<open>None\<close> when it fails.
\<close>

record FillResponse =
  fillTime :: int64
  fillCoin :: string
  fillSide :: string
  fillPx :: "real option"
  fillSz :: "real option"

datatype error =
  SourceError string
  | FailedToParse string
  | FailedToFetchBatch nat error

datatype event =
  Sleep int
  | Post string int64 int64

definition MaxTradesPerBatch :: nat where
  "MaxTradesPerBatch = 2000"

definition RateLimitDelay :: int where
  "RateLimitDelay = 300 * 1000000"

definition convertFillToTrade :: "Location \<Rightarrow> FillResponse \<Rightarrow> error + Trade" where
  "convertFillToTrade Local fill =
     (case fillPx fill of
        None \<Rightarrow> Inl (FailedToParse ''price'')
      | Some price \<Rightarrow>
          (case fillSz fill of
             None \<Rightarrow> Inl (FailedToParse ''size'')
           | Some sz \<Rightarrow>
               Inr \<lparr>Time = TimeOfUnixMilli Local (fillTime fill), Coin = fillCoin fill,
                    Side = fillSide fill, Price = price, Size = sz,
                    Value = price * sz\<rparr>))"

text \<open>The inner loop: a fill that does not convert is skipped.\<close>

fun convertFills :: "Location \<Rightarrow> Trade list \<Rightarrow> FillResponse list \<Rightarrow> Trade list" where
  "convertFills Local allTrades [] = allTrades"
| "convertFills Local allTrades (fill # rest) =
     (case convertFillToTrade Local fill of
        Inl err \<Rightarrow> convertFills Local allTrades rest
      | Inr trade \<Rightarrow> convertFills Local (allTrades @ [trade]) rest)"

text \<open>
  The pagination loop. The external source is the sequence of answers it gives to the
  successive calls of \<^verbatim>\<open>fetchBatch\<close>, each an error or a batch of fills. The loop
  returns the requests and pauses it made, and its result; the result is \<open>None\<close> when
  the answers run out while the loop still asks (it has not returned).
\<close>

type_synonym response = "error + FillResponse list"

fun fetchLoop :: "Location \<Rightarrow> string \<Rightarrow> int64 \<Rightarrow> nat \<Rightarrow> int64 \<Rightarrow> Trade list
    \<Rightarrow> response list \<Rightarrow> event list \<times> (error + Trade list) option" where
  "fetchLoop Local address endTime batchCount currentStartTime allTrades [] =
     ((if batchCount > 0 then [Sleep RateLimitDelay] else [])
        @ [Post address currentStartTime endTime], None)"
| "fetchLoop Local address endTime batchCount currentStartTime allTrades (response # later) =
     (let events = (if batchCount > 0 then [Sleep RateLimitDelay] else [])
                     @ [Post address currentStartTime endTime];
          batchCount' = batchCount + 1
      in case response of
           Inl err \<Rightarrow> (events, Some (Inl (FailedToFetchBatch batchCount' err)))
         | Inr fills \<Rightarrow>
             if length fills = 0 then (events, Some (Inr allTrades))
             else
               let allTrades' = convertFills Local allTrades fills
               in if length fills < MaxTradesPerBatch then (events, Some (Inr allTrades'))
                  else
                    (case fetchLoop Local address endTime batchCount'
                            (fillTime (last fills) + 1) allTrades' later of
                       (further, result) \<Rightarrow> (events @ further, result)))"

definition FetchTradesInRange :: "Location \<Rightarrow> string \<Rightarrow> Time \<Rightarrow> Time \<Rightarrow> response list
    \<Rightarrow> event list \<times> (error + Trade list) option" where
  "FetchTradesInRange Local address start end responses =
     fetchLoop Local address (UnixMilli end) 0 (UnixMilli start) [] responses"

text \<open>\<^verbatim>\<open>FetchTrades\<close> reads the clock itself: \<open>now\<close> is that reading.\<close>

definition FetchTrades :: "Location \<Rightarrow> string \<Rightarrow> int \<Rightarrow> Time \<Rightarrow> response list
    \<Rightarrow> event list \<times> (error + Trade list) option" where
  "FetchTrades Local address days now responses =
     FetchTradesInRange Local address (Add now (minusDays days)) now responses"

section \<open>Reconciliation (services: FetchAndReconcile)\<close>

record AccountCache =
  trades :: "Trade list"
  lastFetchTime :: Time
  cachedDays :: int

record ReconciliationService =
  accountCache :: "string \<rightharpoonup> AccountCache"
  dailyPnL :: "(string \<times> DailyPnL) list"

definition NewReconciliationService :: ReconciliationService where
  "NewReconciliationService = \<lparr>accountCache = Map.empty, dailyPnL = []\<rparr>"

type_synonym outcome = "event list \<times> (ReconciliationService \<times> error option) option"

text \<open>Case 1 of the code: cache reuse.\<close>

definition cacheReuse :: "order \<Rightarrow> Location \<Rightarrow> ReconciliationService \<Rightarrow> string
    \<Rightarrow> AccountCache \<Rightarrow> int \<Rightarrow> Time \<Rightarrow> response list \<Rightarrow> outcome" where
  "cacheReuse \<rho> Local rs address cache days now responses =
     (case FetchTradesInRange Local address (lastFetchTime cache) now responses of
        (events, None) \<Rightarrow> (events, None)
      | (events, Some (Inl err)) \<Rightarrow> (events, Some (rs, Some err))
      | (events, Some (Inr newTrades)) \<Rightarrow>
          (let merged = (if length newTrades > 0
                         then mergeTrades \<rho> (trades cache) newTrades
                         else trades cache);
               cache' = cache\<lparr>trades := merged, lastFetchTime := now\<rparr>;
               cutoffTime = Add now (minusDays days);
               filteredTrades = filterTradesByTime merged cutoffTime
           in (events,
               Some (rs\<lparr>accountCache := (accountCache rs)(address \<mapsto> cache'),
                        dailyPnL := calculateDailyPnLFromTrades \<rho> filteredTrades\<rparr>,
                     None))))"

text \<open>Case 2 of the code: incremental fetch for the same range.\<close>

definition incrementalFetch :: "order \<Rightarrow> Location \<Rightarrow> ReconciliationService \<Rightarrow> string
    \<Rightarrow> AccountCache \<Rightarrow> Time \<Rightarrow> response list \<Rightarrow> outcome" where
  "incrementalFetch \<rho> Local rs address cache now responses =
     (case FetchTradesInRange Local address (lastFetchTime cache) now responses of
        (events, None) \<Rightarrow> (events, None)
      | (events, Some (Inl err)) \<Rightarrow> (events, Some (rs, Some err))
      | (events, Some (Inr newTrades)) \<Rightarrow>
          (let merged = (if length newTrades > 0
                         then mergeTrades \<rho> (trades cache) newTrades
                         else trades cache);
               cache' = cache\<lparr>trades := merged, lastFetchTime := now\<rparr>
           in (events,
               Some (rs\<lparr>accountCache := (accountCache rs)(address \<mapsto> cache'),
                        dailyPnL := calculateDailyPnLFromTrades \<rho> merged\<rparr>,
                     None))))"

text \<open>Case 3 of the code: full fetch. \<open>now\<close> is the clock reading of
  \<^verbatim>\<open>FetchAndReconcile\<close>, \<open>now'\<close> the later one of \<^verbatim>\<open>FetchTrades\<close>.\<close>

definition fullFetch :: "order \<Rightarrow> Location \<Rightarrow> ReconciliationService \<Rightarrow> string
    \<Rightarrow> int \<Rightarrow> Time \<Rightarrow> Time \<Rightarrow> response list \<Rightarrow> outcome" where
  "fullFetch \<rho> Local rs address days now now' responses =
     (case FetchTrades Local address days now' responses of
        (events, None) \<Rightarrow> (events, None)
      | (events, Some (Inl err)) \<Rightarrow> (events, Some (rs, Some err))
      | (events, Some (Inr fetched)) \<Rightarrow>
          (events,
           Some (rs\<lparr>accountCache := (accountCache rs)(address \<mapsto>
                       \<lparr>trades = fetched, lastFetchTime = now, cachedDays = days\<rparr>),
                    dailyPnL := calculateDailyPnLFromTrades \<rho> fetched\<rparr>,
                 None)))"

text \<open>The two guards, in the order the code tests them.\<close>

definition smallerRange :: "AccountCache \<Rightarrow> int \<Rightarrow> Time \<Rightarrow> bool" where
  "smallerRange cache days now \<longleftrightarrow>
     days \<le> cachedDays cache \<and> Sub now (lastFetchTime cache) < Hour"

definition sameRange :: "AccountCache \<Rightarrow> int \<Rightarrow> Time \<Rightarrow> bool" where
  "sameRange cache days now \<longleftrightarrow>
     days = cachedDays cache \<and> Sub now (lastFetchTime cache) < Hour"

definition FetchAndReconcile :: "order \<Rightarrow> Location \<Rightarrow> ReconciliationService \<Rightarrow> string
    \<Rightarrow> int \<Rightarrow> Time \<Rightarrow> Time \<Rightarrow> response list \<Rightarrow> outcome" where
  "FetchAndReconcile \<rho> Local rs address days now now' responses =
     (case accountCache rs address of
        None \<Rightarrow> fullFetch \<rho> Local rs address days now now' responses
      | Some cache \<Rightarrow>
          if \<not> IsZero (lastFetchTime cache) then
            if smallerRange cache days now
            then cacheReuse \<rho> Local rs address cache days now responses
            else if sameRange cache days now
            then incrementalFetch \<rho> Local rs address cache now responses
            else fullFetch \<rho> Local rs address days now now' responses
          else fullFetch \<rho> Local rs address days now now' responses)"

section \<open>Test helper (services test file: createTestTrade)\<close>

text \<open>The tests build trades from RFC 3339 times ending in \<open>Z\<close>, that is in UTC; here
  the time is given as Unix milliseconds.\<close>

definition createTestTrade :: "int \<Rightarrow> string \<Rightarrow> string \<Rightarrow> real \<Rightarrow> real \<Rightarrow> Trade" where
  "createTestTrade ms coin side price sz =
     \<lparr>Time = \<lparr>unixNano = ms * 1000000, zoneOffset = 0\<rparr>, Coin = coin, Side = side,
      Price = price, Size = sz, Value = price * sz\<rparr>"

section \<open>Example data\<close>

text \<open>Two locations: UTC, and a zone five and a half hours east of UTC all year.\<close>

definition utcZone :: Location where
  "utcZone s = 0"

definition colomboZone :: Location where
  "colomboZone s = 19800"

text \<open>Two fills of the evening of 2025-01-01 and the small hours of 2025-01-02 (UTC),
  and the trades they become in a process whose local zone is five and a half hours
  east of UTC.\<close>

definition eveningFill :: FillResponse where
  "eveningFill = \<lparr>fillTime = 1735761600000, fillCoin = ''BTC'', fillSide = ''B'',
                   fillPx = Some 50000, fillSz = Some 1\<rparr>"

definition morningFill :: FillResponse where
  "morningFill = \<lparr>fillTime = 1735779600000, fillCoin = ''BTC'', fillSide = ''A'',
                   fillPx = Some 51000, fillSz = Some 1\<rparr>"

definition eveningTrade :: Trade where
  "eveningTrade = \<lparr>Time = \<lparr>unixNano = 1735761600000000000, zoneOffset = 19800\<rparr>,
                    Coin = ''BTC'', Side = ''B'', Price = 50000, Size = 1, Value = 50000\<rparr>"

definition morningTrade :: Trade where
  "morningTrade = \<lparr>Time = \<lparr>unixNano = 1735779600000000000, zoneOffset = 19800\<rparr>,
                    Coin = ''BTC'', Side = ''A'', Price = 51000, Size = 1, Value = 51000\<rparr>"

text \<open>A trade at the instant of \<open>eveningTrade\<close> in another coin, and two trades whose keys
  collide although their triples differ.\<close>

definition eveningEthTrade :: Trade where
  "eveningEthTrade = \<lparr>Time = \<lparr>unixNano = 1735761600000000000, zoneOffset = 19800\<rparr>,
                       Coin = ''ETH'', Side = ''B'', Price = 3000, Size = 1, Value = 3000\<rparr>"

definition underscoreCoinTrade :: Trade where
  "underscoreCoinTrade = \<lparr>Time = \<lparr>unixNano = 1735761600000000000, zoneOffset = 0\<rparr>,
                           Coin = ''X_Y'', Side = ''B'', Price = 1, Size = 1, Value = 1\<rparr>"

definition underscoreSideTrade :: Trade where
  "underscoreSideTrade = \<lparr>Time = \<lparr>unixNano = 1735761600000000000, zoneOffset = 0\<rparr>,
                           Coin = ''X'', Side = ''Y_B'', Price = 1, Size = 1, Value = 1\<rparr>"

text \<open>A fill of 2025-01-01 10:10 UTC, the trade it becomes in a process located in UTC,
  two clock readings of 2025-01-02 (10:00 and 10:30 UTC), and the state after a first
  reconcile of one day at 10:00 that fetched this fill.\<close>

definition yesterdayFill :: FillResponse where
  "yesterdayFill = \<lparr>fillTime = 1735726200000, fillCoin = ''BTC'', fillSide = ''B'',
                     fillPx = Some 50000, fillSz = Some 1\<rparr>"

definition yesterdayTrade :: Trade where
  "yesterdayTrade = \<lparr>Time = \<lparr>unixNano = 1735726200000000000, zoneOffset = 0\<rparr>,
                      Coin = ''BTC'', Side = ''B'', Price = 50000, Size = 1, Value = 50000\<rparr>"

definition tenOClock :: Time where
  "tenOClock = \<lparr>unixNano = 1735812000000000000, zoneOffset = 0\<rparr>"

definition halfPastTen :: Time where
  "halfPastTen = \<lparr>unixNano = 1735813800000000000, zoneOffset = 0\<rparr>"

definition afterFirstFetch :: ReconciliationService where
  "afterFirstFetch =
     \<lparr>accountCache = [''0xabc'' \<mapsto>
        \<lparr>trades = [yesterdayTrade], lastFetchTime = tenOClock, cachedDays = 1\<rparr>],
      dailyPnL = [(''2025-01-01'',
        \<lparr>Date = ''2025-01-01'', TradeCount = 1, DailyPnL = - 50000, CumulativePnL = 0\<rparr>)]\<rparr>"

text \<open>The state after a full fetch whose source returned one fill twice.\<close>

definition duplicateState :: ReconciliationService where
  "duplicateState =
     \<lparr>accountCache = [''0xabc'' \<mapsto>
        \<lparr>trades = [eveningTrade, eveningTrade], lastFetchTime = tenOClock, cachedDays = 1\<rparr>],
      dailyPnL = calculateDailyPnLFromTrades inOrder [eveningTrade, eveningTrade]\<rparr>"

section \<open>Notions used to state the properties\<close>

text \<open>What a position adds to the day's total, and what a single trade adds to it.\<close>

definition net :: "string \<times> Position \<Rightarrow> real" where
  "net e = SellValue (snd e) - BuyValue (snd e)"

definition contribution :: "Trade \<Rightarrow> real" where
  "contribution trade =
     (if Side trade = ''B'' then - Value trade
      else if Side trade = ''A'' then Value trade else 0)"

text \<open>The first half of \<open>positionStep\<close>: make sure the coin has a position.\<close>

definition admit :: "(string \<times> Position) list \<Rightarrow> string \<Rightarrow> (string \<times> Position) list" where
  "admit cp coin = (if map_of cp coin = None then AList.update coin zeroPosition cp else cp)"

text \<open>The record that \<open>dailyRecords\<close> stores for a date, and the trades of the input that
  carry a given date.\<close>

definition dayRecord :: "order \<Rightarrow> string \<Rightarrow> Trade list \<Rightarrow> DailyPnL" where
  "dayRecord \<rho> date dayTrades =
     \<lparr>Date = date, TradeCount = int (length dayTrades),
      DailyPnL = calculatePnLForDay \<rho> dayTrades, CumulativePnL = 0\<rparr>"

definition tradesOn :: "string \<Rightarrow> Trade list \<Rightarrow> Trade list" where
  "tradesOn date ts = filter (\<lambda>trade. FormatDate (Time trade) = date) ts"

text \<open>Two trades fall in the same daily record when one group of \<open>groupByDate\<close> holds
  both. \<open>utcDay\<close> is the number of the UTC calendar day of an instant.\<close>

definition sameRecord :: "Trade list \<Rightarrow> Trade \<Rightarrow> Trade \<Rightarrow> bool" where
  "sameRecord ts u v \<longleftrightarrow> (\<exists>(d, g) \<in> set (groupByDate [] ts). u \<in> set g \<and> v \<in> set g)"

definition utcDay :: "Time \<Rightarrow> int" where
  "utcDay t = unixNano t div 86400000000000"

text \<open>Reading a decimal string back, and the part of \<open>appendInt\<close> after the sign.\<close>

definition digitVal :: "char \<Rightarrow> nat" where
  "digitVal c = of_char c - 48"

definition decimalValue :: "string \<Rightarrow> nat" where
  "decimalValue s = foldl (\<lambda>acc c. 10 * acc + digitVal c) 0 s"

definition paddedDigits :: "int \<Rightarrow> nat \<Rightarrow> string" where
  "paddedDigits x width =
     replicate (width - length (digits (nat \<bar>x\<bar>))) CHR ''0'' @ digits (nat \<bar>x\<bar>)"

text \<open>The day of the year that \<open>monthAndDay\<close> turns into a given month and day.\<close>

definition ydayOf :: "bool \<Rightarrow> int \<Rightarrow> int \<Rightarrow> int" where
  "ydayOf leap m d =
     (if leap \<and> m = 2 \<and> d = 29 then 59
      else let adj = daysBefore (m - 1) + d - 1
           in if leap \<and> adj \<ge> 59 then adj + 1 else adj)"

text \<open>A table as the code builds it: one entry per date, each record under its own date.
  \<open>sameDay\<close> is a record without its cumulative field.\<close>

definition tableOk :: "(string \<times> DailyPnL) list \<Rightarrow> bool" where
  "tableOk tbl \<longleftrightarrow> distinct (map fst tbl) \<and> (\<forall>(k, r) \<in> set tbl. Date r = k)"

definition sameDay :: "DailyPnL \<Rightarrow> string \<times> int \<times> real" where
  "sameDay r = (Date r, TradeCount r, DailyPnL r)"

text \<open>The table of the test of the cumulative P&L: three days with P&L 1000, 100 and 500.\<close>

definition threeDays :: "(string \<times> DailyPnL) list" where
  "threeDays =
     [(''2025-01-02'', \<lparr>Date = ''2025-01-02'', TradeCount = 2, DailyPnL = 100, CumulativePnL = 0\<rparr>),
      (''2025-01-01'', \<lparr>Date = ''2025-01-01'', TradeCount = 2, DailyPnL = 1000, CumulativePnL = 0\<rparr>),
      (''2025-01-03'', \<lparr>Date = ''2025-01-03'', TradeCount = 2, DailyPnL = 500, CumulativePnL = 0\<rparr>)]"

text \<open>
  The pagination in the words of the specification. A batch stops the loop when it is
  empty or shorter than the page limit; the pages before the first such batch are full,
  and after each of them the cursor moves to the time of its last fill plus one
  millisecond. The requests are the first one at the start time, then one per moved
  cursor, each after the pacing delay. The result is the trades of the batches up to
  and including the stopping one, or nothing yet when no batch stops the loop.
\<close>

definition stops :: "FillResponse list \<Rightarrow> bool" where
  "stops batch \<longleftrightarrow> batch = [] \<or> length batch < MaxTradesPerBatch"

definition pagesBeforeStop :: "FillResponse list list \<Rightarrow> FillResponse list list" where
  "pagesBeforeStop batches = takeWhile (\<lambda>batch. \<not> stops batch) batches"

definition cursorAfter :: "FillResponse list \<Rightarrow> int64" where
  "cursorAfter batch = fillTime (last batch) + 1"

definition laterRequests :: "string \<Rightarrow> int64 \<Rightarrow> int64 list \<Rightarrow> event list" where
  "laterRequests address endTime cursors =
     concat (map (\<lambda>cursor. [Sleep RateLimitDelay, Post address cursor endTime]) cursors)"

definition pagedRequests :: "string \<Rightarrow> int64 \<Rightarrow> int64 \<Rightarrow> FillResponse list list \<Rightarrow> event list" where
  "pagedRequests address startTime endTime batches =
     Post address startTime endTime
       # laterRequests address endTime (map cursorAfter (pagesBeforeStop batches))"

definition pagedResult :: "Location \<Rightarrow> Trade list \<Rightarrow> FillResponse list list
    \<Rightarrow> (error + Trade list) option" where
  "pagedResult Local allTrades batches =
     (let n = length (pagesBeforeStop batches)
      in if n < length batches
         then Some (Inr (convertFills Local allTrades (concat (take (Suc n) batches))))
         else None)"

text \<open>
  The instant of a trade and its identity triple; the invariant claimed for a cached
  list; a map of trades in which every trade sits under its own key.
\<close>

definition instantOf :: "Trade \<Rightarrow> int" where
  "instantOf trade = unixNano (Time trade)"

definition identity :: "Trade \<Rightarrow> int64 \<times> string \<times> string" where
  "identity trade = (UnixMilli (Time trade), Coin trade, Side trade)"

definition cacheInvariant :: "Trade list \<Rightarrow> bool" where
  "cacheInvariant ts \<longleftrightarrow> sorted (map instantOf ts) \<and> distinct (map identity ts)"

definition keyed :: "(string \<times> Trade) list \<Rightarrow> bool" where
  "keyed tradeMap \<longleftrightarrow>
     distinct (map fst tradeMap) \<and> (\<forall>(k, v) \<in> set tradeMap. k = tradeKey v)"

text \<open>Whether reconcile takes one of its two incremental branches, and the list they
  store: the merge when the fetch returned trades, the cached list otherwise.\<close>

definition reusesCache :: "ReconciliationService \<Rightarrow> string \<Rightarrow> int \<Rightarrow> Time \<Rightarrow> bool" where
  "reusesCache rs address days now \<longleftrightarrow>
     (case accountCache rs address of
        None \<Rightarrow> False
      | Some cache \<Rightarrow>
          \<not> IsZero (lastFetchTime cache)
          \<and> (smallerRange cache days now \<or> sameRange cache days now))"

definition mergedWith :: "order \<Rightarrow> Trade list \<Rightarrow> Trade list \<Rightarrow> Trade list" where
  "mergedWith \<rho> cached fetched =
     (if length fetched > 0 then mergeTrades \<rho> cached fetched else cached)"

section \<open>Orders of iteration\<close>

lemma mset_rangeOver: "valid_order \<rho> \<Longrightarrow> mset (rangeOver \<rho> m) = mset m"
proof -
  assume v: "valid_order \<rho>"
  have "mset (rangeOver \<rho> m) = image_mset (\<lambda>i. m ! i) (mset (\<rho> (length m)))"
    by (simp add: rangeOver_def)
  also have "\<dots> = image_mset (\<lambda>i. m ! i) (mset [0..<length m])"
    using v by (simp add: valid_order_def)
  also have "\<dots> = mset (map (\<lambda>i. m ! i) [0..<length m])"
    by simp
  also have "\<dots> = mset m"
    by (simp add: map_nth)
  finally show ?thesis .
qed

lemma valid_inOrder: "valid_order inOrder"
  by (simp add: valid_order_def inOrder_def)

lemma valid_reverseOrder: "valid_order reverseOrder"
  by (simp add: valid_order_def reverseOrder_def)

section \<open>The P&L of one day\<close>

lemma sumPositions_sum_list: "sumPositions acc ps = acc + sum_list (map net ps)"
  by (induction acc ps rule: sumPositions.induct) (simp_all add: net_def)

lemma sum_update_fresh:
  "k \<notin> fst ` set al \<Longrightarrow>
   sum_list (map net (AList.update k v al)) = sum_list (map net al) + net (k, v)"
  by (induction al) auto

lemma sum_map_entry:
  "k \<in> fst ` set al \<Longrightarrow> distinct (map fst al) \<Longrightarrow> (\<And>p. net (k, f p) = net (k, p) + d)
   \<Longrightarrow> sum_list (map net (AList.map_entry k f al)) = sum_list (map net al) + d"
proof (induction al)
  case Nil
  then show ?case by simp
next
  case (Cons e al)
  obtain c p where e: "e = (c, p)" by (cases e)
  show ?case
  proof (cases "c = k")
    case True
    with Cons.prems e show ?thesis by (simp add: net_def)
  next
    case False
    with Cons e show ?thesis by auto
  qed
qed

lemma admit_keys: "fst ` set (admit cp coin) = insert coin (fst ` set cp)"
  by (auto simp: admit_def dom_update map_of_eq_None_iff)

lemma admit_distinct: "distinct (map fst cp) \<Longrightarrow> distinct (map fst (admit cp coin))"
  by (simp add: admit_def distinct_update)

lemma admit_sum: "sum_list (map net (admit cp coin)) = sum_list (map net cp)"
  by (simp add: admit_def sum_update_fresh map_of_eq_None_iff net_def zeroPosition_def)

lemma positionStep_admit:
  "positionStep cp t =
     (if Side t = ''B''
      then AList.map_entry (Coin t) (\<lambda>p. p\<lparr>BuyValue := BuyValue p + Value t\<rparr>)
             (admit cp (Coin t))
      else if Side t = ''A''
      then AList.map_entry (Coin t) (\<lambda>p. p\<lparr>SellValue := SellValue p + Value t\<rparr>)
             (admit cp (Coin t))
      else admit cp (Coin t))"
  by (simp add: positionStep_def admit_def Let_def)

lemma positionStep_distinct:
  "distinct (map fst cp) \<Longrightarrow> distinct (map fst (positionStep cp t))"
  by (simp add: positionStep_admit admit_distinct distinct_map_entry)

lemma positionStep_sum:
  assumes "distinct (map fst cp)"
  shows "sum_list (map net (positionStep cp t)) = sum_list (map net cp) + contribution t"
proof -
  let ?a = "admit cp (Coin t)"
  have k: "Coin t \<in> fst ` set ?a" by (simp add: admit_keys)
  have d: "distinct (map fst ?a)" using assms by (rule admit_distinct)
  show ?thesis
  proof (cases "Side t = ''B''")
    case True
    have "sum_list (map net (AList.map_entry (Coin t)
              (\<lambda>p. p\<lparr>BuyValue := BuyValue p + Value t\<rparr>) ?a))
          = sum_list (map net ?a) + (- Value t)"
      by (rule sum_map_entry[OF k d]) (simp add: net_def)
    with True show ?thesis by (simp add: positionStep_admit admit_sum contribution_def)
  next
    case notB: False
    show ?thesis
    proof (cases "Side t = ''A''")
      case True
      have "sum_list (map net (AList.map_entry (Coin t)
                (\<lambda>p. p\<lparr>SellValue := SellValue p + Value t\<rparr>) ?a))
            = sum_list (map net ?a) + Value t"
        by (rule sum_map_entry[OF k d]) (simp add: net_def)
      with True notB show ?thesis by (simp add: positionStep_admit admit_sum contribution_def)
    next
      case False
      with notB show ?thesis by (simp add: positionStep_admit admit_sum contribution_def)
    qed
  qed
qed

lemma positionsOf_distinct:
  "distinct (map fst cp) \<Longrightarrow> distinct (map fst (positionsOf cp ts))"
  by (induction ts arbitrary: cp) (simp_all add: positionStep_distinct)

lemma positionsOf_sum:
  "distinct (map fst cp) \<Longrightarrow>
   sum_list (map net (positionsOf cp ts)) = sum_list (map net cp) + sum_list (map contribution ts)"
  by (induction ts arbitrary: cp) (simp_all add: positionStep_distinct positionStep_sum)

lemma calculatePnLForDay_sum:
  assumes "valid_order \<rho>"
  shows "calculatePnLForDay \<rho> ts = sum_list (map contribution ts)"
proof -
  have "mset (map net (rangeOver \<rho> (positionsOf [] ts))) = mset (map net (positionsOf [] ts))"
    by (simp add: mset_rangeOver[OF assms])
  then have "sum_list (map net (rangeOver \<rho> (positionsOf [] ts)))
             = sum_list (map net (positionsOf [] ts))"
    by (metis sum_mset_sum_list)
  then show ?thesis
    by (simp add: calculatePnLForDay_def sumPositions_sum_list positionsOf_sum)
qed

text \<open>
  Claim C9. The P&L of a day is the same for every arrangement of the day's trades and
  for every order in which the map of positions is visited: it depends only on the
  multiset of trades (amounts being exact reals).
\<close>

theorem C9_day_pnl_order_independent:
  assumes "valid_order \<rho>" and "valid_order \<rho>'" and "mset xs = mset ys"
  shows "calculatePnLForDay \<rho> xs = calculatePnLForDay \<rho>' ys"
proof -
  have "mset (map contribution xs) = mset (map contribution ys)"
    using assms(3) by simp
  then have "sum_list (map contribution xs) = sum_list (map contribution ys)"
    by (metis sum_mset_sum_list)
  then show ?thesis
    by (simp add: calculatePnLForDay_sum assms)
qed

theorem C9_witness:
  "valid_order inOrder \<and> valid_order reverseOrder
   \<and> mset [createTestTrade 1735725600000 ''BTC'' ''B'' 50000 1,
            createTestTrade 1735729200000 ''BTC'' ''A'' 51000 1,
            createTestTrade 1735732800000 ''ETH'' ''B'' 3000 2]
     = mset [createTestTrade 1735732800000 ''ETH'' ''B'' 3000 2,
             createTestTrade 1735725600000 ''BTC'' ''B'' 50000 1,
             createTestTrade 1735729200000 ''BTC'' ''A'' 51000 1]
   \<and> calculatePnLForDay inOrder
        [createTestTrade 1735725600000 ''BTC'' ''B'' 50000 1,
         createTestTrade 1735729200000 ''BTC'' ''A'' 51000 1,
         createTestTrade 1735732800000 ''ETH'' ''B'' 3000 2]
     = calculatePnLForDay reverseOrder
        [createTestTrade 1735732800000 ''ETH'' ''B'' 3000 2,
         createTestTrade 1735725600000 ''BTC'' ''B'' 50000 1,
         createTestTrade 1735729200000 ''BTC'' ''A'' 51000 1]"
proof -
  have m: "mset [createTestTrade 1735725600000 ''BTC'' ''B'' 50000 1,
            createTestTrade 1735729200000 ''BTC'' ''A'' 51000 1,
            createTestTrade 1735732800000 ''ETH'' ''B'' 3000 2]
     = mset [createTestTrade 1735732800000 ''ETH'' ''B'' 3000 2,
             createTestTrade 1735725600000 ''BTC'' ''B'' 50000 1,
             createTestTrade 1735729200000 ''BTC'' ''A'' 51000 1]"
    by simp
  show ?thesis
    using C9_day_pnl_order_independent[OF valid_inOrder valid_reverseOrder m]
      valid_inOrder valid_reverseOrder m
    by blast
qed

section \<open>Dates\<close>

lemma capped_quot:
  fixes r :: int
  assumes "0 \<le> r" and "r \<le> 4"
  shows "0 \<le> r - r div 4" and "r - r div 4 \<le> 3" and "r \<le> 3 \<Longrightarrow> r - r div 4 = r" and "r = 4 \<Longrightarrow> r - r div 4 = 3"
proof -
  from assms have "r = 0 \<or> r = 1 \<or> r = 2 \<or> r = 3 \<or> r = 4" by arith
  then show "0 \<le> r - r div 4" and "r - r div 4 \<le> 3" and "r \<le> 3 \<Longrightarrow> r - r div 4 = r" and "r = 4 \<Longrightarrow> r - r div 4 = 3"
    by auto
qed

lemma quot_bounds:
  fixes x k :: int
  assumes "0 < k"
  shows "k * (x div k) \<le> x" and "x < k * (x div k) + k"
proof -
  have e: "x = k * (x div k) + x mod k" by simp
  have "0 \<le> x mod k" "x mod k < k" using assms by simp_all
  with e show "k * (x div k) \<le> x" and "x < k * (x div k) + k" by linarith+
qed

lemma yearAndDay_facts:
  assumes "yearAndDay days = (y, yd)"
  shows "\<exists>n400 n100 n4 n1. y = 400 * n400 + 100 * n100 + 4 * n4 + n1 + 1
     \<and> days + 719162 = 146097 * n400 + 36524 * n100 + 1461 * n4 + 365 * n1 + yd
     \<and> 0 \<le> n100 \<and> n100 \<le> 3 \<and> 0 \<le> n4 \<and> n4 \<le> 24 \<and> 0 \<le> n1 \<and> n1 \<le> 3 \<and> 0 \<le> yd \<and> yd \<le> 365"
proof -
  define d0 where "d0 = days + 719162"
  define n400 where "n400 = d0 div 146097"
  define d1 where "d1 = d0 - 146097 * n400"
  define r100 where "r100 = d1 div 36524"
  define n100 where "n100 = r100 - r100 div 4"
  define d2 where "d2 = d1 - 36524 * n100"
  define n4 where "n4 = d2 div 1461"
  define d3 where "d3 = d2 - 1461 * n4"
  define r1 where "r1 = d3 div 365"
  define n1 where "n1 = r1 - r1 div 4"
  define d4 where "d4 = d3 - 365 * n1"
  have "yearAndDay days = (400 * n400 + 100 * n100 + 4 * n4 + n1 + 1, d4)"
    unfolding yearAndDay_def d4_def n1_def r1_def d3_def n4_def d2_def n100_def r100_def
      d1_def n400_def d0_def Let_def
    by (rule refl)
  with assms have res: "y = 400 * n400 + 100 * n100 + 4 * n4 + n1 + 1" "yd = d4"
    by simp_all
  have d1mod: "d1 = d0 mod 146097"
    unfolding d1_def n400_def by (simp add: minus_mult_div_eq_mod)
  have b1: "0 \<le> d1" "d1 \<le> 146096"
    unfolding d1mod by simp_all
  have b100: "0 \<le> r100" "r100 \<le> 4"
    unfolding r100_def using b1 by simp_all
  have c100: "0 \<le> n100" "n100 \<le> 3"
    unfolding n100_def using capped_quot[OF b100] by simp_all
  have q100: "36524 * r100 \<le> d1" "d1 < 36524 * r100 + 36524"
    unfolding r100_def using quot_bounds[of 36524 d1] by simp_all
  have b2: "0 \<le> d2" "d2 \<le> 36524"
  proof -
    consider "r100 \<le> 3" | "r100 = 4" using b100 by arith
    then have "0 \<le> d2 \<and> d2 \<le> 36524"
    proof cases
      case 1
      then have "n100 = r100" unfolding n100_def using capped_quot(3)[OF b100] by simp
      then show ?thesis unfolding d2_def using q100 by simp
    next
      case 2
      then have "n100 = 3" unfolding n100_def using capped_quot(4)[OF b100] by simp
      then show ?thesis unfolding d2_def using q100 b1 2 by simp
    qed
    then show "0 \<le> d2" "d2 \<le> 36524" by simp_all
  qed
  have c4: "0 \<le> n4" "n4 \<le> 24"
    unfolding n4_def using b2 by simp_all
  have d3mod: "d3 = d2 mod 1461"
    unfolding d3_def n4_def by (simp add: minus_mult_div_eq_mod)
  have b3: "0 \<le> d3" "d3 \<le> 1460"
    unfolding d3mod by simp_all
  have b1r: "0 \<le> r1" "r1 \<le> 4"
    unfolding r1_def using b3 by simp_all
  have c1: "0 \<le> n1" "n1 \<le> 3"
    unfolding n1_def using capped_quot[OF b1r] by simp_all
  have q1: "365 * r1 \<le> d3" "d3 < 365 * r1 + 365"
    unfolding r1_def using quot_bounds[of 365 d3] by simp_all
  have b4: "0 \<le> d4" "d4 \<le> 365"
  proof -
    consider "r1 \<le> 3" | "r1 = 4" using b1r by arith
    then have "0 \<le> d4 \<and> d4 \<le> 365"
    proof cases
      case 1
      then have "n1 = r1" unfolding n1_def using capped_quot(3)[OF b1r] by simp
      then show ?thesis unfolding d4_def using q1 by simp
    next
      case 2
      then have "n1 = 3" unfolding n1_def using capped_quot(4)[OF b1r] by simp
      then show ?thesis unfolding d4_def using q1 b3 2 by simp
    qed
    then show "0 \<le> d4" "d4 \<le> 365" by simp_all
  qed
  have "d0 = 146097 * n400 + 36524 * n100 + 1461 * n4 + 365 * n1 + d4"
    by (simp add: d1_def d2_def d3_def d4_def)
  then show ?thesis
    using res c100 c4 c1 b4 unfolding d0_def by blast
qed


lemma daysBefore_values:
  "daysBefore 0 = 0" "daysBefore 1 = 31" "daysBefore 2 = 59" "daysBefore 3 = 90"
  "daysBefore 4 = 120" "daysBefore 5 = 151" "daysBefore 6 = 181" "daysBefore 7 = 212"
  "daysBefore 8 = 243" "daysBefore 9 = 273" "daysBefore 10 = 304" "daysBefore 11 = 334"
  "daysBefore 12 = 365"
  by (simp_all add: daysBefore_def)

text \<open>The month and day of an adjusted day of the year (leap day taken out).\<close>

lemma month_of_day:
  fixes day :: int
  assumes "0 \<le> day" and "day \<le> 365"
  defines "k \<equiv> day div 31"
  defines "e \<equiv> daysBefore (k + 1)"
  defines "m \<equiv> (if day \<ge> e then k + 2 else k + 1)"
  defines "d \<equiv> (if day \<ge> e then day - e + 1 else day - daysBefore k + 1)"
  shows "1 \<le> m \<and> m \<le> 13 \<and> 1 \<le> d \<and> d \<le> 31 \<and> daysBefore (m - 1) + d - 1 = day
         \<and> (m = 2 \<longrightarrow> d \<le> 28)"
proof -
  have q: "31 * k \<le> day" "day < 31 * k + 31"
    unfolding k_def using quot_bounds[of 31 day] by simp_all
  with assms(1,2) have "0 \<le> k" "k \<le> 11" by linarith+
  then have "k = 0 \<or> k = 1 \<or> k = 2 \<or> k = 3 \<or> k = 4 \<or> k = 5 \<or> k = 6
      \<or> k = 7 \<or> k = 8 \<or> k = 9 \<or> k = 10 \<or> k = 11"
    by arith
  then consider "k = 0" | "k = 1" | "k = 2" | "k = 3" | "k = 4" | "k = 5" | "k = 6"
    | "k = 7" | "k = 8" | "k = 9" | "k = 10" | "k = 11"
    by blast
  then show ?thesis
  proof cases
    case 1 with q assms(2) show ?thesis unfolding m_def d_def e_def by (simp add: daysBefore_values)
  next
    case 2 with q assms(2) show ?thesis unfolding m_def d_def e_def by (simp add: daysBefore_values)
  next
    case 3 with q assms(2) show ?thesis unfolding m_def d_def e_def by (simp add: daysBefore_values)
  next
    case 4 with q assms(2) show ?thesis unfolding m_def d_def e_def by (simp add: daysBefore_values)
  next
    case 5 with q assms(2) show ?thesis unfolding m_def d_def e_def by (simp add: daysBefore_values)
  next
    case 6 with q assms(2) show ?thesis unfolding m_def d_def e_def by (simp add: daysBefore_values)
  next
    case 7 with q assms(2) show ?thesis unfolding m_def d_def e_def by (simp add: daysBefore_values)
  next
    case 8 with q assms(2) show ?thesis unfolding m_def d_def e_def by (simp add: daysBefore_values)
  next
    case 9 with q assms(2) show ?thesis unfolding m_def d_def e_def by (simp add: daysBefore_values)
  next
    case 10 with q assms(2) show ?thesis unfolding m_def d_def e_def by (simp add: daysBefore_values)
  next
    case 11 with q assms(2) show ?thesis unfolding m_def d_def e_def by (simp add: daysBefore_values)
  next
    case 12 with q assms(2) show ?thesis unfolding m_def d_def e_def by (simp add: daysBefore_values)
  qed
qed

lemma monthAndDay_facts:
  assumes "0 \<le> yd" and "yd \<le> 365" and "monthAndDay y yd = (m, d)"
  shows "1 \<le> m \<and> m \<le> 13 \<and> 1 \<le> d \<and> d \<le> 31 \<and> yd = ydayOf (isLeap y) m d"
proof (cases "isLeap y \<and> yd = 59")
  case True
  with assms(3) show ?thesis by (simp add: monthAndDay_def ydayOf_def)
next
  case False
  define day where "day = (if isLeap y \<and> yd > 59 then yd - 1 else yd)"
  have b: "0 \<le> day" "day \<le> 365" using assms(1,2) by (auto simp: day_def)
  note md = month_of_day[OF b]
  have m: "m = (if day \<ge> daysBefore (day div 31 + 1) then day div 31 + 2 else day div 31 + 1)"
    and d: "d = (if day \<ge> daysBefore (day div 31 + 1) then day - daysBefore (day div 31 + 1) + 1
                 else day - daysBefore (day div 31) + 1)"
    using assms(3) False by (auto simp: monthAndDay_def Let_def day_def split: if_splits)
  from md have r: "1 \<le> m" "m \<le> 13" "1 \<le> d" "d \<le> 31" "daysBefore (m - 1) + d - 1 = day"
    "m = 2 \<longrightarrow> d \<le> 28"
    unfolding m d by simp_all
  have "yd = ydayOf (isLeap y) m d"
    using r(5,6) False by (auto simp: ydayOf_def Let_def day_def split: if_splits)
  with r show ?thesis by simp
qed

lemma civilFromDays_bounds:
  assumes "civilFromDays days = (y, m, d)"
  shows "1 \<le> m \<and> m \<le> 13 \<and> 1 \<le> d \<and> d \<le> 31"
proof -
  obtain y' yd where yd: "yearAndDay days = (y', yd)" by (cases "yearAndDay days")
  obtain m' d' where md: "monthAndDay y' yd = (m', d')" by (cases "monthAndDay y' yd")
  from assms yd md have e: "y' = y" "m' = m" "d' = d" by (simp_all add: civilFromDays_def)
  from yearAndDay_facts[OF yd] have "0 \<le> yd" "yd \<le> 365" by auto
  from monthAndDay_facts[OF this md] e show ?thesis by simp
qed

lemma civilFromDays_inj:
  assumes "civilFromDays a = civilFromDays b"
  shows "a = b"
proof -
  obtain ya yda where A: "yearAndDay a = (ya, yda)" by (cases "yearAndDay a")
  obtain yb ydb where B: "yearAndDay b = (yb, ydb)" by (cases "yearAndDay b")
  obtain ma da where MA: "monthAndDay ya yda = (ma, da)" by (cases "monthAndDay ya yda")
  obtain mb db where MB: "monthAndDay yb ydb = (mb, db)" by (cases "monthAndDay yb ydb")
  from assms A B MA MB have e: "ya = yb" "ma = mb" "da = db" by (simp_all add: civilFromDays_def)
  from yearAndDay_facts[OF A] obtain p q r s where
    fa: "ya = 400 * p + 100 * q + 4 * r + s + 1"
        "a + 719162 = 146097 * p + 36524 * q + 1461 * r + 365 * s + yda"
        "0 \<le> q" "q \<le> 3" "0 \<le> r" "r \<le> 24" "0 \<le> s" "s \<le> 3" "0 \<le> yda" "yda \<le> 365"
    by blast
  from yearAndDay_facts[OF B] obtain p' q' r' s' where
    fb: "yb = 400 * p' + 100 * q' + 4 * r' + s' + 1"
        "b + 719162 = 146097 * p' + 36524 * q' + 1461 * r' + 365 * s' + ydb"
        "0 \<le> q'" "q' \<le> 3" "0 \<le> r'" "r' \<le> 24" "0 \<le> s'" "s' \<le> 3" "0 \<le> ydb" "ydb \<le> 365"
    by blast
  have "yda = ydayOf (isLeap ya) ma da" using monthAndDay_facts[OF fa(9,10) MA] by simp
  moreover have "ydb = ydayOf (isLeap yb) mb db" using monthAndDay_facts[OF fb(9,10) MB] by simp
  ultimately have yd: "yda = ydb" using e by simp
  have eq: "400 * p + 100 * q + 4 * r + s = 400 * p' + 100 * q' + 4 * r' + s'"
    using fa(1) fb(1) e(1) by simp
  have "p = p'" using eq fa(3-8) fb(3-8) by arith
  moreover from this have "q = q'" using eq fa(3-8) fb(3-8) by arith
  moreover from calculation have "r = r'" using eq fa(3-8) fb(3-8) by arith
  moreover from calculation have "s = s'" using eq by arith
  ultimately show ?thesis using fa(2) fb(2) yd by simp
qed

lemma digit_cases:
  "k < 10 \<Longrightarrow> k = 0 \<or> k = 1 \<or> k = 2 \<or> k = 3 \<or> k = 4 \<or> k = 5 \<or> k = 6 \<or> k = 7 \<or> k = 8
     \<or> k = (9::nat)"
  by arith

lemma digitVal_digit: "k < 10 \<Longrightarrow> digitVal (''0123456789'' ! k) = k"
  by (drule digit_cases) (auto simp: digitVal_def)

lemma digit_not_minus: "k < 10 \<Longrightarrow> ''0123456789'' ! k \<noteq> CHR ''-''"
  by (drule digit_cases) auto

lemma digits_nonempty: "digits n \<noteq> []"
  by (subst digits.simps) simp

lemma hd_digits_not_minus: "hd (digits n) \<noteq> CHR ''-''"
proof (induction n rule: digits.induct)
  case (1 n)
  show ?case
  proof (cases "n < 10")
    case True
    then show ?thesis by (subst digits.simps) (simp add: digit_not_minus)
  next
    case False
    then have "hd (digits n) = hd (digits (n div 10))"
      by (subst digits.simps) (simp add: digits_nonempty)
    with 1 False show ?thesis by simp
  qed
qed

lemma decimalValue_snoc: "decimalValue (s @ [c]) = 10 * decimalValue s + digitVal c"
  by (simp add: decimalValue_def)

lemma decimalValue_digits: "decimalValue (digits n) = n"
proof (induction n rule: digits.induct)
  case (1 n)
  show ?case
  proof (cases "n < 10")
    case True
    then show ?thesis
      by (subst digits.simps) (simp add: decimalValue_def digitVal_digit)
  next
    case False
    then have "decimalValue (digits n) = 10 * decimalValue (digits (n div 10)) + n mod 10"
      by (subst digits.simps) (simp add: decimalValue_snoc digitVal_digit)
    with 1 False show ?thesis by simp
  qed
qed

lemma foldl_zeros: "foldl (\<lambda>acc c. 10 * acc + digitVal c) 0 (replicate k CHR ''0'') = 0"
  by (induction k) (simp_all add: digitVal_def)

lemma decimalValue_padded: "decimalValue (replicate k CHR ''0'' @ s) = decimalValue s"
  by (simp add: decimalValue_def foldl_zeros)

lemma appendInt_paddedDigits: "appendInt x w = (if x < 0 then CHR ''-'' # paddedDigits x w else paddedDigits x w)"
  by (simp add: appendInt_def paddedDigits_def Let_def)

lemma paddedDigits_value: "decimalValue (paddedDigits x w) = nat \<bar>x\<bar>"
  by (simp add: paddedDigits_def decimalValue_padded decimalValue_digits)

lemma hd_paddedDigits: "hd (paddedDigits x w) \<noteq> CHR ''-''"
proof (cases "w - length (digits (nat \<bar>x\<bar>))")
  case 0
  then show ?thesis by (simp add: paddedDigits_def hd_digits_not_minus)
next
  case (Suc k)
  then show ?thesis by (simp add: paddedDigits_def)
qed

lemma paddedDigits_nonempty: "paddedDigits x w \<noteq> []"
  by (simp add: paddedDigits_def digits_nonempty)

lemma appendInt_inj:
  assumes "appendInt x w = appendInt y w'"
  shows "x = y"
proof -
  have neg: "x < 0 \<longleftrightarrow> y < 0"
  proof (rule ccontr)
    assume "\<not> ?thesis"
    then consider "x < 0" "\<not> y < 0" | "\<not> x < 0" "y < 0" by blast
    then show False
    proof cases
      case 1
      with assms have "CHR ''-'' # paddedDigits x w = paddedDigits y w'" by (simp add: appendInt_paddedDigits)
      then have "hd (paddedDigits y w') = CHR ''-''" by (metis list.sel(1))
      with hd_paddedDigits show False by blast
    next
      case 2
      with assms have "paddedDigits x w = CHR ''-'' # paddedDigits y w'" by (simp add: appendInt_paddedDigits)
      then have "hd (paddedDigits x w) = CHR ''-''" by (metis list.sel(1))
      with hd_paddedDigits show False by blast
    qed
  qed
  with assms have "paddedDigits x w = paddedDigits y w'" by (simp add: appendInt_paddedDigits split: if_splits)
  then have "decimalValue (paddedDigits x w) = decimalValue (paddedDigits y w')" by simp
  then have "nat \<bar>x\<bar> = nat \<bar>y\<bar>" by (simp add: paddedDigits_value)
  with neg show ?thesis by arith
qed

lemma length_digits_small: "n < 100 \<Longrightarrow> length (digits n) \<le> 2"
proof -
  assume a: "n < 100"
  show ?thesis
  proof (cases "n < 10")
    case True
    then show ?thesis by (subst digits.simps) simp
  next
    case False
    from a have "n div 10 < 10" by simp
    then have "length (digits (n div 10)) = 1" by (subst digits.simps) simp
    with False show ?thesis by (subst digits.simps) simp
  qed
qed

lemma length_appendInt_2: "0 \<le> x \<Longrightarrow> x < 100 \<Longrightarrow> length (appendInt x 2) = 2"
proof -
  assume a: "0 \<le> x" "x < 100"
  then have "nat \<bar>x\<bar> < 100" by simp
  then have "length (digits (nat \<bar>x\<bar>)) \<le> 2" by (rule length_digits_small)
  with a show ?thesis by (simp add: appendInt_def Let_def)
qed

lemma formatDate_inj:
  assumes "formatDate (y, m, d) = formatDate (y', m', d')"
    and "0 \<le> m" "m < 100" "0 \<le> d" "d < 100" "0 \<le> m'" "m' < 100" "0 \<le> d'" "d' < 100"
  shows "y = y' \<and> m = m' \<and> d = d'"
proof -
  have l: "length (appendInt m 2) = 2" "length (appendInt d 2) = 2"
          "length (appendInt m' 2) = 2" "length (appendInt d' 2) = 2"
    using assms(2-) by (simp_all add: length_appendInt_2)
  let ?S = "''-'' @ appendInt m 2 @ ''-'' @ appendInt d 2"
  let ?S' = "''-'' @ appendInt m' 2 @ ''-'' @ appendInt d' 2"
  have e: "appendInt y 4 @ ?S = appendInt y' 4 @ ?S'"
    using assms(1) by (simp add: formatDate_def)
  have ls: "length ?S = length ?S'" using l by simp
  have c: "appendInt y 4 = appendInt y' 4 \<and> ?S = ?S'"
    using append_eq_append_conv[of "appendInt y 4" "appendInt y' 4" ?S ?S'] e ls by blast
  then have 1: "appendInt y 4 = appendInt y' 4" by simp
  from c have "appendInt m 2 @ (''-'' @ appendInt d 2) = appendInt m' 2 @ (''-'' @ appendInt d' 2)"
    by simp
  then have "appendInt m 2 = appendInt m' 2 \<and> ''-'' @ appendInt d 2 = ''-'' @ appendInt d' 2"
    using append_eq_append_conv[of "appendInt m 2" "appendInt m' 2"
        "''-'' @ appendInt d 2" "''-'' @ appendInt d' 2"] l by simp
  then have "appendInt m 2 = appendInt m' 2" "appendInt d 2 = appendInt d' 2"
    by simp_all
  with 1 show ?thesis by (auto dest: appendInt_inj)
qed

lemma FormatDate_eq_iff: "FormatDate t = FormatDate u \<longleftrightarrow> localDay t = localDay u"
proof
  assume e: "FormatDate t = FormatDate u"
  obtain y m d where a: "civilFromDays (localDay t) = (y, m, d)"
    by (cases "civilFromDays (localDay t)")
  obtain y' m' d' where b: "civilFromDays (localDay u) = (y', m', d')"
    by (cases "civilFromDays (localDay u)")
  from civilFromDays_bounds[OF a] civilFromDays_bounds[OF b]
  have r: "0 \<le> m" "m < 100" "0 \<le> d" "d < 100" "0 \<le> m'" "m' < 100" "0 \<le> d'" "d' < 100"
    by simp_all
  from e a b have "formatDate (y, m, d) = formatDate (y', m', d')"
    by (simp add: FormatDate_def)
  from formatDate_inj[OF this r] a b
  have "civilFromDays (localDay t) = civilFromDays (localDay u)" by simp
  then show "localDay t = localDay u" by (rule civilFromDays_inj)
next
  assume "localDay t = localDay u"
  then show "FormatDate t = FormatDate u" by (simp add: FormatDate_def)
qed

lemma utcDay_localDay: "zoneOffset t = 0 \<Longrightarrow> localDay t = utcDay t"
  by (simp add: localDay_def utcDay_def zdiv_zmult2_eq)

section \<open>The daily table\<close>

lemma perm_distinct_keys:
  "mset xs = mset ys \<Longrightarrow> distinct (map fst xs) \<Longrightarrow> distinct (map fst ys)"
proof -
  assume a: "mset xs = mset ys" and d: "distinct (map fst xs)"
  from a have "mset (map fst xs) = mset (map fst ys)" by simp
  then show ?thesis using d by (metis mset_eq_imp_distinct_iff)
qed

lemma map_of_perm:
  "mset xs = mset ys \<Longrightarrow> distinct (map fst xs) \<Longrightarrow> map_of xs = map_of ys"
proof -
  assume a: "mset xs = mset ys" and d: "distinct (map fst xs)"
  have d': "distinct (map fst ys)" using a d by (rule perm_distinct_keys)
  have "set xs = set ys" using a by (rule mset_eq_setD)
  then show ?thesis using d d' by (simp add: map_of_inject_set)
qed

lemma in_set_updateD:
  "e \<in> set (AList.update k v al) \<Longrightarrow> e = (k, v) \<or> e \<in> set al"
  by (induction al) (auto split: if_splits)

lemma groupByDate_distinct:
  "distinct (map fst tb) \<Longrightarrow> distinct (map fst (groupByDate tb ts))"
  by (induction ts arbitrary: tb) (simp_all add: Let_def distinct_update)

lemma groupByDate_map_of:
  "map_of (groupByDate tb ts) d =
     (if tradesOn d ts = [] then map_of tb d
      else Some ((case map_of tb d of None \<Rightarrow> [] | Some g \<Rightarrow> g) @ tradesOn d ts))"
proof (induction ts arbitrary: tb)
  case Nil
  then show ?case by (simp add: tradesOn_def)
next
  case (Cons t ts)
  show ?case
    by (simp add: Cons.IH Let_def update_conv' tradesOn_def split: option.splits)
qed

lemma groupByDate_entry:
  "(d, g) \<in> set (groupByDate [] ts) \<longleftrightarrow> g \<noteq> [] \<and> g = tradesOn d ts"
proof -
  have "distinct (map fst (groupByDate [] ts))" by (simp add: groupByDate_distinct)
  then have "(d, g) \<in> set (groupByDate [] ts) \<longleftrightarrow> map_of (groupByDate [] ts) d = Some g"
    by simp
  then show ?thesis by (auto simp: groupByDate_map_of)
qed

lemma dailyRecords_distinct:
  "distinct (map fst daily) \<Longrightarrow> distinct (map fst (dailyRecords \<rho> daily gs))"
  by (induction \<rho> daily gs rule: dailyRecords.induct) (simp_all add: distinct_update)

lemma dailyRecords_map_of:
  "distinct (map fst gs) \<Longrightarrow>
   map_of (dailyRecords \<rho> daily gs) d =
     (case map_of gs d of None \<Rightarrow> map_of daily d | Some g \<Rightarrow> Some (dayRecord \<rho> d g))"
proof (induction \<rho> daily gs rule: dailyRecords.induct)
  case (1 \<rho> daily)
  then show ?case by simp
next
  case (2 \<rho> daily date dayTrades rest)
  from "2.prems" have nd: "map_of rest date = None"
    by (simp add: map_of_eq_None_iff)
  from "2.prems" have "distinct (map fst rest)" by simp
  note IH = "2.IH"[OF this]
  show ?case
    using nd by (simp add: IH update_conv' dayRecord_def split: option.splits)
qed

lemma dailyRecords_Date:
  "(\<And>k r. (k, r) \<in> set daily \<Longrightarrow> Date r = k) \<Longrightarrow>
   (k, r) \<in> set (dailyRecords \<rho> daily gs) \<Longrightarrow> Date r = k"
proof (induction \<rho> daily gs rule: dailyRecords.induct)
  case (1 \<rho> daily)
  then show ?case by simp
next
  case (2 \<rho> daily date dayTrades rest)
  show ?case
  proof (rule "2.IH"[OF _ "2.prems"(2)[unfolded dailyRecords.simps]])
    fix k' r'
    assume "(k', r') \<in> set (AList.update date
          \<lparr>Date = date, TradeCount = int (length dayTrades),
           DailyPnL = calculatePnLForDay \<rho> dayTrades, CumulativePnL = 0\<rparr> daily)"
    then show "Date r' = k'"
      using "2.prems"(1) by (auto dest!: in_set_updateD)
  qed
qed

lemma calculateDailyPnLFromTrades_map_of:
  assumes "valid_order \<rho>"
  shows "map_of (calculateDailyPnLFromTrades \<rho> ts) d =
           (if tradesOn d ts = [] then None else Some (dayRecord \<rho> d (tradesOn d ts)))"
proof -
  let ?gs = "groupByDate [] ts"
  have dg: "distinct (map fst ?gs)" by (simp add: groupByDate_distinct)
  have m: "mset ?gs = mset (rangeOver \<rho> ?gs)" by (simp add: mset_rangeOver[OF assms])
  have dr: "distinct (map fst (rangeOver \<rho> ?gs))" using m dg by (rule perm_distinct_keys)
  have mo: "map_of (rangeOver \<rho> ?gs) = map_of ?gs" using map_of_perm[OF m dg] by simp
  show ?thesis
    by (simp add: calculateDailyPnLFromTrades_def dailyRecords_map_of[OF dr] mo
          groupByDate_map_of)
qed

lemma calculateDailyPnLFromTrades_distinct:
  "distinct (map fst (calculateDailyPnLFromTrades \<rho> ts))"
  by (simp add: calculateDailyPnLFromTrades_def dailyRecords_distinct)

lemma calculateDailyPnLFromTrades_Date:
  "(k, r) \<in> set (calculateDailyPnLFromTrades \<rho> ts) \<Longrightarrow> Date r = k"
  unfolding calculateDailyPnLFromTrades_def
  by (rule dailyRecords_Date[where daily="[]"]) simp_all

lemma sameRecord_iff:
  assumes "u \<in> set ts" and "v \<in> set ts"
  shows "sameRecord ts u v \<longleftrightarrow> FormatDate (Time u) = FormatDate (Time v)"
proof
  assume "sameRecord ts u v"
  then obtain d g where "(d, g) \<in> set (groupByDate [] ts)" "u \<in> set g" "v \<in> set g"
    by (auto simp: sameRecord_def)
  then have "u \<in> set (tradesOn d ts)" "v \<in> set (tradesOn d ts)"
    by (simp_all add: groupByDate_entry)
  then show "FormatDate (Time u) = FormatDate (Time v)" by (simp add: tradesOn_def)
next
  assume eq: "FormatDate (Time u) = FormatDate (Time v)"
  let ?d = "FormatDate (Time u)"
  have u: "u \<in> set (tradesOn ?d ts)" and v: "v \<in> set (tradesOn ?d ts)"
    using assms eq by (simp_all add: tradesOn_def)
  then have "tradesOn ?d ts \<noteq> []" by auto
  then have "(?d, tradesOn ?d ts) \<in> set (groupByDate [] ts)" by (simp add: groupByDate_entry)
  with u v show "sameRecord ts u v" unfolding sameRecord_def by blast
qed

text \<open>
  Claim C10. A trade whose side is neither "B" nor "A" is counted in the record of its
  date, and adds nothing to that date's P&L: the record counts one more than the other
  trades of the date, and its P&L is that of those other trades alone.
\<close>

theorem C10_unknown_side_counted_without_value:
  assumes "valid_order \<rho>" and "Side t \<noteq> ''B''" and "Side t \<noteq> ''A''"
  shows "\<exists>r. map_of (calculateDailyPnLFromTrades \<rho> (xs @ t # ys)) (FormatDate (Time t)) = Some r
           \<and> TradeCount r = int (length (tradesOn (FormatDate (Time t)) (xs @ ys))) + 1
           \<and> DailyPnL r = calculatePnLForDay \<rho> (tradesOn (FormatDate (Time t)) (xs @ ys))"
proof -
  let ?d = "FormatDate (Time t)"
  have split: "tradesOn ?d (xs @ t # ys) = tradesOn ?d xs @ t # tradesOn ?d ys"
    by (simp add: tradesOn_def)
  have zero: "contribution t = 0" using assms(2,3) by (simp add: contribution_def)
  have pnl: "calculatePnLForDay \<rho> (tradesOn ?d (xs @ t # ys))
             = calculatePnLForDay \<rho> (tradesOn ?d (xs @ ys))"
    by (simp add: calculatePnLForDay_sum[OF assms(1)] split zero tradesOn_def)
  have len: "int (length (tradesOn ?d (xs @ t # ys))) = int (length (tradesOn ?d (xs @ ys))) + 1"
    by (simp add: split) (simp add: tradesOn_def)
  have "map_of (calculateDailyPnLFromTrades \<rho> (xs @ t # ys)) ?d
        = Some (dayRecord \<rho> ?d (tradesOn ?d (xs @ t # ys)))"
    by (simp add: calculateDailyPnLFromTrades_map_of[OF assms(1)] split)
  then show ?thesis using pnl len by (simp add: dayRecord_def)
qed

theorem C10_witness:
  "valid_order inOrder
   \<and> Side (createTestTrade 1735727400000 ''BTC'' ''X'' 7 1) \<noteq> ''B''
   \<and> Side (createTestTrade 1735727400000 ''BTC'' ''X'' 7 1) \<noteq> ''A''
   \<and> (\<exists>r. map_of (calculateDailyPnLFromTrades inOrder
               ([createTestTrade 1735725600000 ''BTC'' ''B'' 50000 1]
                @ createTestTrade 1735727400000 ''BTC'' ''X'' 7 1
                # [createTestTrade 1735729200000 ''BTC'' ''A'' 51000 1]))
             (FormatDate (Time (createTestTrade 1735727400000 ''BTC'' ''X'' 7 1))) = Some r
          \<and> TradeCount r
              = int (length (tradesOn
                               (FormatDate (Time (createTestTrade 1735727400000 ''BTC'' ''X'' 7 1)))
                               ([createTestTrade 1735725600000 ''BTC'' ''B'' 50000 1]
                                @ [createTestTrade 1735729200000 ''BTC'' ''A'' 51000 1]))) + 1
          \<and> DailyPnL r
              = calculatePnLForDay inOrder
                  (tradesOn (FormatDate (Time (createTestTrade 1735727400000 ''BTC'' ''X'' 7 1)))
                     ([createTestTrade 1735725600000 ''BTC'' ''B'' 50000 1]
                      @ [createTestTrade 1735729200000 ''BTC'' ''A'' 51000 1])))"
proof -
  have s: "Side (createTestTrade 1735727400000 ''BTC'' ''X'' 7 1) \<noteq> ''B''"
          "Side (createTestTrade 1735727400000 ''BTC'' ''X'' 7 1) \<noteq> ''A''"
    by (simp_all add: createTestTrade_def)
  show ?thesis
    using C10_unknown_side_counted_without_value[OF valid_inOrder s,
        of "[createTestTrade 1735725600000 ''BTC'' ''B'' 50000 1]"
           "[createTestTrade 1735729200000 ''BTC'' ''A'' 51000 1]"]
      valid_inOrder s
    by blast
qed

section \<open>Grouping by date\<close>

lemma date_of_eveningTrade: "FormatDate (Time eveningTrade) = ''2025-01-02''"
  by code_simp

lemma date_of_morningTrade: "FormatDate (Time morningTrade) = ''2025-01-02''"
  by code_simp

lemma convert_two_fills:
  "convertFills colomboZone [] [eveningFill, morningFill] = [eveningTrade, morningTrade]"
  by code_simp

text \<open>
  Claim C2 as stated (daily records follow the UTC calendar day) fails: the two fills lie
  in different UTC days, and the aggregation puts them in one record, that of the local
  date 2025-01-02.
\<close>

theorem C2_counterexample:
  "convertFills colomboZone [] [eveningFill, morningFill] = [eveningTrade, morningTrade]
   \<and> \<not> (sameRecord [eveningTrade, morningTrade] eveningTrade morningTrade
        \<longleftrightarrow> utcDay (Time eveningTrade) = utcDay (Time morningTrade))"
  (is "?A \<and> ?B")
proof (rule conjI)
  show ?A by (rule convert_two_fills)
  have "utcDay (Time eveningTrade) \<noteq> utcDay (Time morningTrade)"
    by (simp add: utcDay_def eveningTrade_def morningTrade_def)
  then show ?B
    by (simp add: sameRecord_iff date_of_eveningTrade date_of_morningTrade)
qed

text \<open>
  Claim C2, amended. The aggregation groups trades by the calendar day of each trade's
  timestamp in the location of its own Time value (for fetched trades the local zone of
  the process): two trades of the input fall in the same daily record if and only if
  their timestamps lie in the same calendar day there; for times located in UTC that
  is the UTC calendar day. The record of a trade's date is made from exactly the trades
  of that day.
\<close>

theorem C2_groups_by_day_in_own_location:
  assumes "valid_order \<rho>" and "u \<in> set ts" and "v \<in> set ts"
  shows "(sameRecord ts u v \<longleftrightarrow> localDay (Time u) = localDay (Time v))
       \<and> (zoneOffset (Time u) = 0 \<and> zoneOffset (Time v) = 0 \<longrightarrow>
            (sameRecord ts u v \<longleftrightarrow> utcDay (Time u) = utcDay (Time v)))
       \<and> map_of (calculateDailyPnLFromTrades \<rho> ts) (FormatDate (Time u))
           = Some (dayRecord \<rho> (FormatDate (Time u))
                     (filter (\<lambda>w. localDay (Time w) = localDay (Time u)) ts))"
proof -
  have 1: "sameRecord ts u v \<longleftrightarrow> localDay (Time u) = localDay (Time v)"
    using sameRecord_iff[OF assms(2,3)] by (simp add: FormatDate_eq_iff)
  have 2: "zoneOffset (Time u) = 0 \<and> zoneOffset (Time v) = 0 \<longrightarrow>
            (sameRecord ts u v \<longleftrightarrow> utcDay (Time u) = utcDay (Time v))"
    using 1 by (simp add: utcDay_localDay)
  have f: "tradesOn (FormatDate (Time u)) ts
           = filter (\<lambda>w. localDay (Time w) = localDay (Time u)) ts"
    by (simp add: tradesOn_def FormatDate_eq_iff)
  have "tradesOn (FormatDate (Time u)) ts \<noteq> []"
    using assms(2) by (auto simp: tradesOn_def filter_empty_conv)
  then have 3: "map_of (calculateDailyPnLFromTrades \<rho> ts) (FormatDate (Time u))
           = Some (dayRecord \<rho> (FormatDate (Time u))
                     (filter (\<lambda>w. localDay (Time w) = localDay (Time u)) ts))"
    by (simp add: calculateDailyPnLFromTrades_map_of[OF assms(1)] f[symmetric])
  from 1 2 3 show ?thesis by blast
qed

theorem C2_witness:
  "valid_order inOrder
   \<and> eveningTrade \<in> set [eveningTrade, morningTrade]
   \<and> morningTrade \<in> set [eveningTrade, morningTrade]
   \<and> (sameRecord [eveningTrade, morningTrade] eveningTrade morningTrade
        \<longleftrightarrow> localDay (Time eveningTrade) = localDay (Time morningTrade))
   \<and> localDay (Time eveningTrade) = 20090
   \<and> localDay (Time morningTrade) = 20090"
proof -
  have m: "eveningTrade \<in> set [eveningTrade, morningTrade]"
          "morningTrade \<in> set [eveningTrade, morningTrade]"
    by simp_all
  have l: "localDay (Time eveningTrade) = 20090" "localDay (Time morningTrade) = 20090"
    by (simp_all add: localDay_def eveningTrade_def morningTrade_def)
  show ?thesis
    using C2_groups_by_day_in_own_location[OF valid_inOrder m] valid_inOrder m l
    by simp
qed

section \<open>The summary\<close>

lemma tableOk_calculateDailyPnLFromTrades: "tableOk (calculateDailyPnLFromTrades \<rho> ts)"
  unfolding tableOk_def
  using calculateDailyPnLFromTrades_distinct calculateDailyPnLFromTrades_Date by blast

lemma cumulate_sameDay: "map sameDay (cumulate acc xs) = map sameDay xs"
  by (induction xs arbitrary: acc) (simp_all add: sameDay_def)

lemma cumulate_Date: "map Date (cumulate acc xs) = map Date xs"
  by (induction xs arbitrary: acc) simp_all

lemma cumulate_DailyPnL: "map DailyPnL (cumulate acc xs) = map DailyPnL xs"
  by (induction xs arbitrary: acc) simp_all

lemma sumDaily_sum_list: "sumDaily acc xs = acc + sum_list (map DailyPnL xs)"
  by (induction xs arbitrary: acc) simp_all

lemma cumulate_last:
  "xs \<noteq> [] \<Longrightarrow> CumulativePnL (last (cumulate acc xs)) = acc + sum_list (map DailyPnL xs)"
proof (induction xs arbitrary: acc)
  case Nil
  then show ?case by simp
next
  case (Cons x xs)
  show ?case
  proof (cases "xs = []")
    case True
    then show ?thesis by simp
  next
    case False
    then have "cumulate (acc + DailyPnL x) xs \<noteq> []" by (cases xs) simp_all
    with Cons.IH[OF False, of "acc + DailyPnL x"] show ?thesis by simp
  qed
qed

lemma cumulate_running:
  assumes "sorted (map Date xs)" and "distinct (map Date xs)" and "r \<in> set (cumulate acc xs)"
  shows "CumulativePnL r = acc + sum_list (map DailyPnL (filter (\<lambda>x. Date x \<le> Date r) xs))"
  using assms
proof (induction xs arbitrary: acc)
  case Nil
  then show ?case by simp
next
  case (Cons x xs)
  from Cons.prems(1,2) have later: "\<And>y. y \<in> set xs \<Longrightarrow> Date x < Date y"
    by (auto simp: order_less_le)
  from Cons.prems(3) consider
    "r = x\<lparr>CumulativePnL := acc + DailyPnL x\<rparr>" | "r \<in> set (cumulate (acc + DailyPnL x) xs)"
    by auto
  then show ?case
  proof cases
    case 1
    then have "filter (\<lambda>y. Date y \<le> Date r) xs = []"
      by (simp add: filter_empty_conv not_le later)
    with 1 show ?thesis by simp
  next
    case 2
    from Cons.prems(1,2) have s: "sorted (map Date xs)" "distinct (map Date xs)" by simp_all
    have "Date r \<in> set (map Date (cumulate (acc + DailyPnL x) xs))" using 2 by simp
    then have "Date r \<in> set (map Date xs)" by (simp only: cumulate_Date)
    then have "Date x \<le> Date r" using later by (auto simp: order_less_le)
    with Cons.IH[OF s 2] show ?thesis by simp
  qed
qed

lemma sum_DailyPnL_mset:
  "mset xs = mset ys \<Longrightarrow> sum_list (map DailyPnL (filter P xs)) = sum_list (map DailyPnL (filter P ys))"
proof -
  assume "mset xs = mset ys"
  then have "mset (map DailyPnL (filter P xs)) = mset (map DailyPnL (filter P ys))"
    by simp
  then show ?thesis by (metis sum_mset_sum_list)
qed

text \<open>
  Claim C6. For every table of daily records (one entry per date, each under its own
  date, as the aggregation builds it), the summary lists the records by date, most recent
  first; the cumulative P&L of a record is the sum of the daily P&L of all records up to
  and including its date; the total is the sum of all daily P&L, which is the cumulative
  P&L of the most recent date. Amounts are exact reals.
\<close>

theorem C6_summary_sorted_and_cumulative:
  assumes "valid_order \<rho>" and "tableOk tbl"
  shows "sorted_wrt (\<lambda>a b. Date a > Date b) (DailyRecords (GetPnLSummary \<rho> tbl))
       \<and> mset (map sameDay (DailyRecords (GetPnLSummary \<rho> tbl))) = mset (map (sameDay \<circ> snd) tbl)
       \<and> (\<forall>r \<in> set (DailyRecords (GetPnLSummary \<rho> tbl)).
             CumulativePnL r
               = sum_list (map DailyPnL (filter (\<lambda>x. Date x \<le> Date r) (map snd tbl))))
       \<and> TotalPnL (GetPnLSummary \<rho> tbl) = sum_list (map (DailyPnL \<circ> snd) tbl)
       \<and> (DailyRecords (GetPnLSummary \<rho> tbl) \<noteq> [] \<longrightarrow>
             TotalPnL (GetPnLSummary \<rho> tbl) = CumulativePnL (hd (DailyRecords (GetPnLSummary \<rho> tbl))))"
proof -
  define recs where "recs = map snd (rangeOver \<rho> tbl)"
  define asc where "asc = sort_key Date recs"
  define cs where "cs = cumulate 0 asc"
  have m0: "mset recs = mset (map snd tbl)"
    unfolding recs_def by (simp add: mset_rangeOver[OF assms(1)])
  have ma: "mset asc = mset (map snd tbl)"
    unfolding asc_def using m0 by simp
  have keys: "map Date (map snd tbl) = map fst tbl"
    using assms(2) by (auto simp: tableOk_def)
  have "distinct (map Date (map snd tbl))"
    using assms(2) unfolding keys by (simp add: tableOk_def)
  moreover have "mset (map Date asc) = mset (map Date (map snd tbl))"
    using ma by (metis mset_map)
  ultimately have da: "distinct (map Date asc)"
    by (metis mset_eq_imp_distinct_iff)
  have sa: "sorted (map Date asc)" unfolding asc_def by simp
  have recs: "DailyRecords (GetPnLSummary \<rho> tbl) = rev cs"
    and tot: "TotalPnL (GetPnLSummary \<rho> tbl) = sumDaily 0 (rev cs)"
    by (simp_all add: GetPnLSummary_def Let_def sortByDateDesc_def cs_def asc_def recs_def)
  have "sorted_wrt (<) (map Date cs)"
    unfolding cs_def cumulate_Date using sa da by (simp add: strict_sorted_iff)
  then have "sorted_wrt (\<lambda>a b. Date a < Date b) cs"
    by (simp add: sorted_wrt_map)
  then have a: "sorted_wrt (\<lambda>a b. Date a > Date b) (rev cs)"
    by (simp add: sorted_wrt_rev)
  have "mset (map sameDay cs) = mset (map sameDay asc)"
    unfolding cs_def by (simp only: cumulate_sameDay)
  also have "\<dots> = mset (map sameDay (map snd tbl))" using ma by (metis mset_map)
  finally have b: "mset (map sameDay (rev cs)) = mset (map (sameDay \<circ> snd) tbl)"
    by (simp add: rev_map[symmetric])
  have c: "\<forall>r \<in> set (rev cs). CumulativePnL r
             = sum_list (map DailyPnL (filter (\<lambda>x. Date x \<le> Date r) (map snd tbl)))"
  proof
    fix r assume "r \<in> set (rev cs)"
    then have "r \<in> set (cumulate 0 asc)" by (simp add: cs_def)
    from cumulate_running[OF sa da this]
    have "CumulativePnL r = sum_list (map DailyPnL (filter (\<lambda>x. Date x \<le> Date r) asc))"
      by simp
    also have "\<dots> = sum_list (map DailyPnL (filter (\<lambda>x. Date x \<le> Date r) (map snd tbl)))"
      using ma by (rule sum_DailyPnL_mset)
    finally show "CumulativePnL r
             = sum_list (map DailyPnL (filter (\<lambda>x. Date x \<le> Date r) (map snd tbl)))" .
  qed
  have sum_cs: "sum_list (map DailyPnL cs) = sum_list (map DailyPnL asc)"
    unfolding cs_def by (simp only: cumulate_DailyPnL)
  have "sum_list (map DailyPnL asc) = sum_list (map DailyPnL (map snd tbl))"
    using sum_DailyPnL_mset[OF ma, of "\<lambda>x. True"] by simp
  with sum_cs have d: "sumDaily 0 (rev cs) = sum_list (map (DailyPnL \<circ> snd) tbl)"
    by (simp add: sumDaily_sum_list rev_map[symmetric])
  have e: "rev cs \<noteq> [] \<longrightarrow> sumDaily 0 (rev cs) = CumulativePnL (hd (rev cs))"
  proof
    assume "rev cs \<noteq> []"
    then have ne: "asc \<noteq> []" by (auto simp: cs_def)
    then have "cs \<noteq> []" unfolding cs_def by (cases asc) simp_all
    then have "hd (rev cs) = last cs" by (simp add: hd_rev)
    moreover have "CumulativePnL (last cs) = sum_list (map DailyPnL asc)"
      unfolding cs_def using cumulate_last[OF ne, of 0] by simp
    ultimately show "sumDaily 0 (rev cs) = CumulativePnL (hd (rev cs))"
      using sum_cs by (simp add: sumDaily_sum_list rev_map[symmetric])
  qed
  from a b c d e show ?thesis unfolding recs tot by blast
qed

lemma summary_threeDays:
  "GetPnLSummary reverseOrder threeDays =
     \<lparr>DailyRecords =
        [\<lparr>Date = ''2025-01-03'', TradeCount = 2, DailyPnL = 500, CumulativePnL = 1600\<rparr>,
         \<lparr>Date = ''2025-01-02'', TradeCount = 2, DailyPnL = 100, CumulativePnL = 1100\<rparr>,
         \<lparr>Date = ''2025-01-01'', TradeCount = 2, DailyPnL = 1000, CumulativePnL = 1000\<rparr>],
      TotalPnL = 1600\<rparr>"
  by code_simp

lemma tableOk_threeDays: "tableOk threeDays"
  by (simp add: tableOk_def threeDays_def)

theorem C6_witness:
  "valid_order reverseOrder \<and> tableOk threeDays
   \<and> sorted_wrt (\<lambda>a b. Date a > Date b) (DailyRecords (GetPnLSummary reverseOrder threeDays))
   \<and> TotalPnL (GetPnLSummary reverseOrder threeDays) = sum_list (map (DailyPnL \<circ> snd) threeDays)
   \<and> GetPnLSummary reverseOrder threeDays =
       \<lparr>DailyRecords =
          [\<lparr>Date = ''2025-01-03'', TradeCount = 2, DailyPnL = 500, CumulativePnL = 1600\<rparr>,
           \<lparr>Date = ''2025-01-02'', TradeCount = 2, DailyPnL = 100, CumulativePnL = 1100\<rparr>,
           \<lparr>Date = ''2025-01-01'', TradeCount = 2, DailyPnL = 1000, CumulativePnL = 1000\<rparr>],
        TotalPnL = 1600\<rparr>"
  using C6_summary_sorted_and_cumulative[OF valid_reverseOrder tableOk_threeDays] valid_reverseOrder tableOk_threeDays
    summary_threeDays
  by blast

section \<open>The pagination loop\<close>

lemma convertFills_append:
  "convertFills Local acc (xs @ ys) = convertFills Local (convertFills Local acc xs) ys"
  by (induction xs arbitrary: acc) (simp_all split: sum.splits)

lemma fetchLoop_batches:
  "fetchLoop Local address endTime n cursor acc (map Inr batches) =
     ((if n > 0 then [Sleep RateLimitDelay] else [])
        @ Post address cursor endTime
        # laterRequests address endTime (map cursorAfter (pagesBeforeStop batches)),
      pagedResult Local acc batches)"
proof (induction batches arbitrary: n cursor acc)
  case Nil
  show ?case
    by (simp add: laterRequests_def pagesBeforeStop_def pagedResult_def)
next
  case (Cons b bs)
  show ?case
  proof (cases "stops b")
    case True
    then show ?thesis
      by (auto simp: stops_def laterRequests_def pagesBeforeStop_def pagedResult_def Let_def)
  next
    case False
    then have full: "length b \<noteq> 0" "\<not> length b < MaxTradesPerBatch"
      by (simp_all add: stops_def)
    have p: "pagesBeforeStop (b # bs) = b # pagesBeforeStop bs"
      using False by (simp add: pagesBeforeStop_def)
    have r: "pagedResult Local acc (b # bs) = pagedResult Local (convertFills Local acc b) bs"
      by (simp add: pagedResult_def p Let_def convertFills_append)
    show ?thesis
      using full
      by (simp add: Cons.IH Let_def p r laterRequests_def cursorAfter_def)
  qed
qed

text \<open>
  Claim C8. For every sequence of batches the source returns, the loop asks once per full
  page and once more: it stops at the first batch that is empty (which adds nothing) or
  shorter than the page limit (after converting it); after each full page it moves the
  cursor to the time of the page's last fill plus one millisecond (in int64) and asks
  again; the pacing delay precedes every request but the first.
\<close>

theorem C8_pagination_as_specified:
  "FetchTradesInRange Local address start end (map Inr batches) =
     (pagedRequests address (UnixMilli start) (UnixMilli end) batches,
      pagedResult Local [] batches)"
  by (simp add: FetchTradesInRange_def fetchLoop_batches pagedRequests_def)

theorem C8_witness:
  "FetchTradesInRange utcZone ''0xabc''
     \<lparr>unixNano = 1735689600000000000, zoneOffset = 0\<rparr>
     \<lparr>unixNano = 1735812000000000000, zoneOffset = 0\<rparr>
     (map Inr [replicate 2000 eveningFill, [morningFill]])
   = ([Post ''0xabc'' 1735689600000 1735812000000,
       Sleep 300000000,
       Post ''0xabc'' 1735761600001 1735812000000],
      Some (Inr (convertFills utcZone [] (replicate 2000 eveningFill @ [morningFill]))))"
proof -
  have p: "pagesBeforeStop [replicate 2000 eveningFill, [morningFill]]
           = [replicate 2000 eveningFill]"
    by (simp add: pagesBeforeStop_def stops_def MaxTradesPerBatch_def)
  have t: "fillTime eveningFill = 1735761600000" by (simp add: eveningFill_def)
  show ?thesis
    using C8_pagination_as_specified[of utcZone "''0xabc''"
        "\<lparr>unixNano = 1735689600000000000, zoneOffset = 0\<rparr>"
        "\<lparr>unixNano = 1735812000000000000, zoneOffset = 0\<rparr>"
        "[replicate 2000 eveningFill, [morningFill]]"]
    by (simp add: pagedRequests_def pagedResult_def laterRequests_def p cursorAfter_def
          UnixMilli_def RateLimitDelay_def t)
qed

section \<open>Failure of the source\<close>

lemma fetchLoop_error_any_window:
  "snd (fetchLoop Local address endTime n cursor acc responses) = Some (Inl err) \<Longrightarrow>
   snd (fetchLoop Local' address' endTime' n cursor' acc' responses) = Some (Inl err)"
proof (induction responses arbitrary: n cursor acc cursor' acc')
  case Nil
  then show ?case by simp
next
  case (Cons r rs)
  show ?case
  proof (cases r)
    case (Inl e)
    with Cons.prems show ?thesis by (simp add: Let_def)
  next
    case (Inr fills)
    show ?thesis
    proof (cases "length fills = 0 \<or> length fills < MaxTradesPerBatch")
      case True
      with Cons.prems Inr show ?thesis by (auto simp: Let_def split: if_splits)
    next
      case False
      with Cons.prems Inr
      have "snd (fetchLoop Local address endTime (n + 1) (fillTime (last fills) + 1)
                  (convertFills Local acc fills) rs) = Some (Inl err)"
        by (simp add: Let_def split: prod.splits)
      from Cons.IH[OF this]
      have "snd (fetchLoop Local' address' endTime' (n + 1) (fillTime (last fills) + 1)
                  (convertFills Local' acc' fills) rs) = Some (Inl err)" .
      with False Inr show ?thesis by (auto simp: Let_def split: prod.splits)
    qed
  qed
qed

lemma FetchTradesInRange_error_any_window:
  "snd (FetchTradesInRange Local address start end responses) = Some (Inl err) \<Longrightarrow>
   snd (FetchTradesInRange Local' address' start' end' responses) = Some (Inl err)"
  unfolding FetchTradesInRange_def by (rule fetchLoop_error_any_window)

lemma cacheReuse_error:
  assumes "snd (FetchTradesInRange Local address start end responses) = Some (Inl err)"
  shows "snd (cacheReuse \<rho> Local rs address cache days now responses) = Some (rs, Some err)"
proof -
  have "snd (FetchTradesInRange Local address (lastFetchTime cache) now responses) = Some (Inl err)"
    using assms by (rule FetchTradesInRange_error_any_window)
  then show ?thesis
    by (cases "FetchTradesInRange Local address (lastFetchTime cache) now responses")
       (simp add: cacheReuse_def)
qed

lemma incrementalFetch_error:
  assumes "snd (FetchTradesInRange Local address start end responses) = Some (Inl err)"
  shows "snd (incrementalFetch \<rho> Local rs address cache now responses) = Some (rs, Some err)"
proof -
  have "snd (FetchTradesInRange Local address (lastFetchTime cache) now responses) = Some (Inl err)"
    using assms by (rule FetchTradesInRange_error_any_window)
  then show ?thesis
    by (cases "FetchTradesInRange Local address (lastFetchTime cache) now responses")
       (simp add: incrementalFetch_def)
qed

lemma fullFetch_error:
  assumes "snd (FetchTradesInRange Local address start end responses) = Some (Inl err)"
  shows "snd (fullFetch \<rho> Local rs address days now now' responses) = Some (rs, Some err)"
proof -
  have "snd (FetchTradesInRange Local address (Add now' (minusDays days)) now' responses)
        = Some (Inl err)"
    using assms by (rule FetchTradesInRange_error_any_window)
  then show ?thesis
    by (cases "FetchTradesInRange Local address (Add now' (minusDays days)) now' responses")
       (simp add: fullFetch_def FetchTrades_def)
qed

text \<open>
  Claim C3. If the fetch fails, whichever branch reconcile takes, reconcile returns the
  very error of the fetch and the state (every cache entry and the daily table) as it
  was. Whether the fetch fails, and with which error, depends on the answers of the
  source only, not on the window asked for.
\<close>

theorem C3_failed_fetch_changes_nothing:
  assumes "snd (FetchTradesInRange Local address start end responses) = Some (Inl err)"
  shows "snd (FetchAndReconcile \<rho> Local rs address days now now' responses) = Some (rs, Some err)"
  unfolding FetchAndReconcile_def
  using cacheReuse_error[OF assms] incrementalFetch_error[OF assms] fullFetch_error[OF assms]
  by (simp split: option.splits)

theorem C3_witness:
  "snd (FetchTradesInRange utcZone ''0xabc''
          \<lparr>unixNano = 1735689600000000000, zoneOffset = 0\<rparr>
          \<lparr>unixNano = 1735812000000000000, zoneOffset = 0\<rparr>
          [Inr (replicate 2000 eveningFill), Inl (SourceError ''status 429'')])
     = Some (Inl (FailedToFetchBatch 2 (SourceError ''status 429'')))
   \<and> snd (FetchAndReconcile inOrder utcZone
            \<lparr>accountCache = [''0xabc'' \<mapsto>
                \<lparr>trades = [eveningTrade],
                 lastFetchTime = \<lparr>unixNano = 1735810200000000000, zoneOffset = 0\<rparr>,
                 cachedDays = 30\<rparr>],
              dailyPnL = threeDays\<rparr>
            ''0xabc'' 7
            \<lparr>unixNano = 1735812000000000000, zoneOffset = 0\<rparr>
            \<lparr>unixNano = 1735812000000000001, zoneOffset = 0\<rparr>
            [Inr (replicate 2000 eveningFill), Inl (SourceError ''status 429'')])
     = Some (\<lparr>accountCache = [''0xabc'' \<mapsto>
                \<lparr>trades = [eveningTrade],
                 lastFetchTime = \<lparr>unixNano = 1735810200000000000, zoneOffset = 0\<rparr>,
                 cachedDays = 30\<rparr>],
              dailyPnL = threeDays\<rparr>,
             Some (FailedToFetchBatch 2 (SourceError ''status 429'')))"
proof -
  have f: "snd (FetchTradesInRange utcZone ''0xabc''
          \<lparr>unixNano = 1735689600000000000, zoneOffset = 0\<rparr>
          \<lparr>unixNano = 1735812000000000000, zoneOffset = 0\<rparr>
          [Inr (replicate 2000 eveningFill), Inl (SourceError ''status 429'')])
     = Some (Inl (FailedToFetchBatch 2 (SourceError ''status 429'')))"
    by (simp add: FetchTradesInRange_def MaxTradesPerBatch_def Let_def split: prod.splits)
  show ?thesis using C3_failed_fetch_changes_nothing[OF f] f by simp
qed

section \<open>Merging\<close>

lemma tradeKey_identity: "identity u = identity v \<Longrightarrow> tradeKey u = tradeKey v"
  by (simp add: identity_def tradeKey_def)

lemma distinct_keys_identity:
  assumes "distinct (map tradeKey ts)"
  shows "distinct (map identity ts)"
proof -
  have "inj_on tradeKey (set ts)" and d: "distinct ts"
    using assms by (simp_all add: distinct_map)
  then have "inj_on identity (set ts)"
    by (auto simp: inj_on_def dest: tradeKey_identity)
  with d show ?thesis by (simp add: distinct_map)
qed

lemma keyed_update: "keyed tm \<Longrightarrow> keyed (AList.update (tradeKey t) t tm)"
  by (auto simp: keyed_def distinct_update dest!: in_set_updateD)

lemma keyed_putTrades: "keyed tm \<Longrightarrow> keyed (putTrades tm ts)"
  by (induction ts arbitrary: tm) (simp_all add: keyed_update)

lemma keys_putTrades: "fst ` set (putTrades tm ts) = fst ` set tm \<union> tradeKey ` set ts"
  by (induction ts arbitrary: tm) (auto simp: dom_update)

lemma keyed_values: "keyed tm \<Longrightarrow> map tradeKey (map snd tm) = map fst tm"
  by (auto simp: keyed_def)

lemma keyed_length: "keyed tm \<Longrightarrow> length tm = card (fst ` set tm)"
proof -
  assume "keyed tm"
  then have "distinct (map fst tm)" by (simp add: keyed_def)
  then have "card (set (map fst tm)) = length (map fst tm)" by (rule distinct_card)
  then show ?thesis by simp
qed

lemma keyed_merge_map: "keyed (putTrades (putTrades [] existing) new)"
  by (rule keyed_putTrades, rule keyed_putTrades) (simp add: keyed_def)

lemma mset_mergeTrades:
  assumes "valid_order \<rho>"
  shows "mset (mergeTrades \<rho> existing new)
         = mset (map snd (putTrades (putTrades [] existing) new))"
  by (simp add: mergeTrades_def sortByTime_def Let_def mset_rangeOver[OF assms])

lemma length_mergeTrades:
  assumes "valid_order \<rho>"
  shows "length (mergeTrades \<rho> existing new) = card (tradeKey ` (set existing \<union> set new))"
proof -
  let ?tm = "putTrades (putTrades [] existing) new"
  have "length (mergeTrades \<rho> existing new) = length (map snd ?tm)"
    using mset_mergeTrades[OF assms] by (rule mset_eq_length)
  also have "\<dots> = length ?tm" by simp
  also have "\<dots> = card (fst ` set ?tm)" using keyed_merge_map by (rule keyed_length)
  also have "\<dots> = card (tradeKey ` (set existing \<union> set new))"
    by (simp add: keys_putTrades image_Un)
  finally show ?thesis .
qed

lemma sortByTime_instantOf: "sortByTime xs = sort_key instantOf xs"
proof -
  have "(\<lambda>trade. unixNano (Time trade)) = instantOf" by (rule ext) (simp add: instantOf_def)
  then show ?thesis by (simp only: sortByTime_def)
qed

lemma sorted_mergeTrades: "sorted (map instantOf (mergeTrades \<rho> existing new))"
proof -
  have "instantOf = (\<lambda>trade. unixNano (Time trade))" by (rule ext) (simp add: instantOf_def)
  then show ?thesis by (simp add: mergeTrades_def sortByTime_def Let_def)
qed

lemma distinct_keys_mergeTrades:
  assumes "valid_order \<rho>"
  shows "distinct (map tradeKey (mergeTrades \<rho> existing new))"
proof -
  let ?tm = "putTrades (putTrades [] existing) new"
  have k: "keyed ?tm" by (rule keyed_merge_map)
  have "mset (map tradeKey (mergeTrades \<rho> existing new)) = mset (map tradeKey (map snd ?tm))"
    using mset_mergeTrades[OF assms] by (metis mset_map)
  also have "\<dots> = mset (map fst ?tm)" by (simp only: keyed_values[OF k])
  finally have "mset (map tradeKey (mergeTrades \<rho> existing new)) = mset (map fst ?tm)" .
  moreover have "distinct (map fst ?tm)" using k by (simp add: keyed_def)
  ultimately show ?thesis by (metis mset_eq_imp_distinct_iff)
qed

lemma cacheInvariant_mergeTrades:
  "valid_order \<rho> \<Longrightarrow> cacheInvariant (mergeTrades \<rho> existing new)"
  by (simp add: cacheInvariant_def sorted_mergeTrades distinct_keys_mergeTrades
        distinct_keys_identity)

lemma mergeTrades_length_keys:
  assumes "valid_order \<rho>" and "distinct (map tradeKey A)"
    and "\<forall>b \<in> set B. \<exists>a \<in> set A. tradeKey b = tradeKey a"
  shows "length (mergeTrades \<rho> A B) = length A"
proof -
  have "tradeKey ` (set A \<union> set B) = tradeKey ` set A"
    using assms(3) by (auto simp: image_iff)
  then have "length (mergeTrades \<rho> A B) = card (tradeKey ` set A)"
    by (simp add: length_mergeTrades[OF assms(1)])
  also have "\<dots> = card (set (map tradeKey A))" by simp
  also have "\<dots> = length A" using distinct_card[OF assms(2)] by simp
  finally show ?thesis .
qed

lemma putTrades_fresh:
  "distinct (map tradeKey ts) \<Longrightarrow> tradeKey ` set ts \<inter> fst ` set tm = {} \<Longrightarrow>
   putTrades tm ts = tm @ map (\<lambda>t. (tradeKey t, t)) ts"
proof (induction ts arbitrary: tm)
  case Nil
  then show ?case by simp
next
  case (Cons t ts)
  from Cons.prems(2) have fresh: "tradeKey t \<notin> fst ` set tm" by auto
  have u: "AList.update (tradeKey t) t tm = tm @ [(tradeKey t, t)]"
    using fresh by (induction tm) auto
  have "tradeKey ` set ts \<inter> fst ` set (tm @ [(tradeKey t, t)]) = {}"
    using Cons.prems by auto
  with Cons.IH[of "tm @ [(tradeKey t, t)]"] Cons.prems(1) u show ?case by simp
qed

lemma putTrades_again:
  "(\<And>t. t \<in> set ts \<Longrightarrow> map_of tm (tradeKey t) = Some t) \<Longrightarrow> putTrades tm ts = tm"
  by (induction ts arbitrary: tm) (simp_all add: update_triv)

lemma filter_same_key:
  "distinct (map f xs) \<Longrightarrow> k \<in> set xs \<Longrightarrow> filter (\<lambda>x. f k = f x) xs = [k]"
proof (induction xs)
  case Nil
  then show ?case by simp
next
  case (Cons x xs)
  show ?case
  proof (cases "k = x")
    case True
    with Cons.prems(1) have "filter (\<lambda>y. f k = f y) xs = []"
      by (auto simp: filter_empty_conv)
    with True show ?thesis by simp
  next
    case False
    with Cons.prems have kx: "k \<in> set xs" by simp
    then have "f k \<in> f ` set xs" by (rule imageI)
    moreover from Cons.prems(1) have "f x \<notin> f ` set xs" by simp
    ultimately have "f k \<noteq> f x" by metis
    moreover from Cons.prems(1) have "distinct (map f xs)" by simp
    ultimately show ?thesis using Cons.IH kx by simp
  qed
qed

lemma sort_key_of_permutation:
  assumes "mset xs = mset ys" and "sorted (map f ys)" and "distinct (map f ys)"
  shows "sort_key f xs = ys"
proof (rule properties_for_sort_key)
  show "mset ys = mset xs" using assms(1) by simp
  show "sorted (map f ys)" by (rule assms(2))
  fix k assume k: "k \<in> set ys"
  have "mset (map f xs) = mset (map f ys)" using assms(1) by (metis mset_map)
  then have dx: "distinct (map f xs)" using assms(3) by (metis mset_eq_imp_distinct_iff)
  have kx: "k \<in> set xs" using k assms(1) by (metis mset_eq_setD)
  show "filter (\<lambda>x. f k = f x) ys = filter (\<lambda>x. f k = f x) xs"
    by (simp add: filter_same_key[OF assms(3) k] filter_same_key[OF dx kx])
qed

lemma mergeTrades_self_keys_sorted:
  assumes "valid_order \<rho>" and "sorted_wrt (\<lambda>a b. instantOf a < instantOf b) A"
    and "distinct (map tradeKey A)"
  shows "mergeTrades \<rho> A A = A"
proof -
  define tm where "tm = map (\<lambda>t. (tradeKey t, t)) A"
  have 1: "putTrades [] A = tm"
    unfolding tm_def using putTrades_fresh[OF assms(3), of "[]"] by simp
  have fst_tm: "map fst tm = map tradeKey A" and snd_tm: "map snd tm = A"
    unfolding tm_def by (simp_all add: comp_def)
  have "\<And>t. t \<in> set A \<Longrightarrow> map_of tm (tradeKey t) = Some t"
  proof -
    fix t assume "t \<in> set A"
    then have "(tradeKey t, t) \<in> (\<lambda>t. (tradeKey t, t)) ` set A" by (rule imageI)
    then have "(tradeKey t, t) \<in> set tm" unfolding tm_def by (simp only: set_map)
    moreover have "distinct (map fst tm)" using assms(3) by (simp only: fst_tm)
    ultimately show "map_of tm (tradeKey t) = Some t" by (simp only: map_of_eq_Some_iff)
  qed
  then have 2: "putTrades tm A = tm" by (rule putTrades_again)
  have "mset (rangeOver \<rho> tm) = mset tm" using assms(1) by (rule mset_rangeOver)
  then have "mset (map snd (rangeOver \<rho> tm)) = mset (map snd tm)" by (metis mset_map)
  then have m: "mset (map snd (rangeOver \<rho> tm)) = mset A" by (simp only: snd_tm)
  have "sorted_wrt (<) (map instantOf A)" using assms(2) by (simp only: sorted_wrt_map)
  then have s: "sorted (map instantOf A)" "distinct (map instantOf A)"
    by (simp_all only: strict_sorted_iff)
  have "sort_key instantOf (map snd (rangeOver \<rho> tm)) = A"
    using m s by (rule sort_key_of_permutation)
  moreover have "mergeTrades \<rho> A A = sort_key instantOf (map snd (rangeOver \<rho> tm))"
    by (simp only: mergeTrades_def Let_def 1 2 sortByTime_instantOf)
  ultimately show ?thesis by simp
qed

section \<open>Keys and triples\<close>

lemma digit_not_underscore: "k < 10 \<Longrightarrow> ''0123456789'' ! k \<noteq> CHR ''_''"
  by (drule digit_cases) auto

lemma underscore_digit: "k < 10 \<Longrightarrow> CHR ''_'' \<noteq> ''0123456789'' ! k"
  using digit_not_underscore by metis

lemma underscore_digits: "CHR ''_'' \<notin> set (digits n)"
proof (induction n rule: digits.induct)
  case (1 n)
  show ?case
  proof (cases "n < 10")
    case True
    then show ?thesis by (subst digits.simps) (simp add: underscore_digit)
  next
    case False
    with 1 show ?thesis by (subst digits.simps) (simp add: underscore_digit)
  qed
qed

lemma formatInt_appendInt: "formatInt x = appendInt x 0"
  by (simp add: formatInt_def appendInt_def Let_def)

lemma formatInt_inj: "formatInt x = formatInt y \<Longrightarrow> x = y"
  unfolding formatInt_appendInt by (rule appendInt_inj)

lemma underscore_formatInt: "CHR ''_'' \<notin> set (formatInt x)"
  by (simp add: formatInt_def underscore_digits)

lemma split_at_first:
  "c \<notin> set xs \<Longrightarrow> c \<notin> set ys \<Longrightarrow> xs @ c # r = ys @ c # r' \<Longrightarrow> xs = ys \<and> r = r'"
proof (induction xs arbitrary: ys)
  case Nil
  then show ?case by (cases ys) auto
next
  case (Cons x xs)
  then show ?case by (cases ys) auto
qed

lemma split_at_last:
  assumes "c \<notin> set xs" and "c \<notin> set ys" and "r @ c # xs = r' @ c # ys"
  shows "xs = ys \<and> r = r'"
proof -
  from assms(3) have "rev (r @ c # xs) =  rev (r' @ c # ys)" by simp
  then have "rev xs @ c # rev r = rev ys @ c # rev r'" by simp
  from split_at_first[OF _ _ this] assms(1,2) show ?thesis by simp
qed

lemma tradeKey_eq_imp_identity:
  assumes "tradeKey u = tradeKey v"
    and "CHR ''_'' \<notin> set (Side u)" and "CHR ''_'' \<notin> set (Side v)"
  shows "identity u = identity v"
proof -
  let ?fu = "formatInt (sint (UnixMilli (Time u)))"
  let ?fv = "formatInt (sint (UnixMilli (Time v)))"
  from assms(1) have "?fu @ CHR ''_'' # (Coin u @ CHR ''_'' # Side u)
                    = ?fv @ CHR ''_'' # (Coin v @ CHR ''_'' # Side v)"
    by (simp add: tradeKey_def)
  from split_at_first[OF underscore_formatInt underscore_formatInt this]
  have f: "?fu = ?fv" and r: "Coin u @ CHR ''_'' # Side u = Coin v @ CHR ''_'' # Side v"
    by simp_all
  from split_at_last[OF assms(2,3) r] have cs: "Side u = Side v" "Coin u = Coin v" by simp_all
  from f have "sint (UnixMilli (Time u)) = sint (UnixMilli (Time v))" by (rule formatInt_inj)
  then have "UnixMilli (Time u) = UnixMilli (Time v)" by (rule signed_word_eqI)
  with cs show ?thesis by (simp add: identity_def)
qed

lemma distinct_identity_keys:
  assumes "distinct (map identity ts)" and "\<forall>t \<in> set ts. CHR ''_'' \<notin> set (Side t)"
  shows "distinct (map tradeKey ts)"
proof -
  have "inj_on identity (set ts)" and d: "distinct ts"
    using assms(1) by (simp_all add: distinct_map)
  then have "inj_on tradeKey (set ts)"
    using assms(2) by (auto simp: inj_on_def dest!: tradeKey_eq_imp_identity)
  with d show ?thesis by (simp add: distinct_map)
qed

section \<open>The branches of reconcile\<close>

lemma sameRange_smallerRange: "sameRange cache days now \<Longrightarrow> smallerRange cache days now"
  by (simp add: sameRange_def smallerRange_def)

lemma FetchAndReconcile_reuse:
  assumes "accountCache rs address = Some cache" and "reusesCache rs address days now"
  shows "FetchAndReconcile \<rho> Local rs address days now now' responses
         = cacheReuse \<rho> Local rs address cache days now responses"
  using assms sameRange_smallerRange[of cache days now]
  by (auto simp: FetchAndReconcile_def reusesCache_def)

lemma FetchAndReconcile_full:
  assumes "\<not> reusesCache rs address days now"
  shows "FetchAndReconcile \<rho> Local rs address days now now' responses
         = fullFetch \<rho> Local rs address days now now' responses"
  using assms
  by (auto simp: FetchAndReconcile_def reusesCache_def split: option.splits)

lemma cacheReuse_success:
  assumes "snd (cacheReuse \<rho> Local rs address cache days now responses) = Some (rs', None)"
  shows "\<exists>fetched.
           snd (FetchTradesInRange Local address (lastFetchTime cache) now responses)
             = Some (Inr fetched)
           \<and> accountCache rs' = (accountCache rs)(address \<mapsto>
               cache\<lparr>trades := mergedWith \<rho> (trades cache) fetched, lastFetchTime := now\<rparr>)
           \<and> dailyPnL rs' = calculateDailyPnLFromTrades \<rho>
               (filterTradesByTime (mergedWith \<rho> (trades cache) fetched)
                  (Add now (minusDays days)))"
proof (cases "FetchTradesInRange Local address (lastFetchTime cache) now responses")
  case (Pair events result)
  show ?thesis
  proof (cases result)
    case None
    with Pair assms show ?thesis by (simp add: cacheReuse_def)
  next
    case (Some r)
    show ?thesis
    proof (cases r)
      case (Inl err)
      with Pair Some assms show ?thesis by (simp add: cacheReuse_def)
    next
      case (Inr fetched)
      with Pair Some assms show ?thesis
        by (auto simp: cacheReuse_def Let_def mergedWith_def)
    qed
  qed
qed

lemma fullFetch_success:
  assumes "snd (fullFetch \<rho> Local rs address days now now' responses) = Some (rs', None)"
  shows "\<exists>fetched.
           snd (FetchTrades Local address days now' responses) = Some (Inr fetched)
           \<and> accountCache rs' = (accountCache rs)(address \<mapsto>
               \<lparr>trades = fetched, lastFetchTime = now, cachedDays = days\<rparr>)
           \<and> dailyPnL rs' = calculateDailyPnLFromTrades \<rho> fetched"
proof (cases "FetchTrades Local address days now' responses")
  case (Pair events result)
  show ?thesis
  proof (cases result)
    case None
    with Pair assms show ?thesis by (simp add: fullFetch_def)
  next
    case (Some r)
    show ?thesis
    proof (cases r)
      case (Inl err)
      with Pair Some assms show ?thesis by (simp add: fullFetch_def)
    next
      case (Inr fetched)
      with Pair Some assms show ?thesis by (auto simp: fullFetch_def)
    qed
  qed
qed

section \<open>Reconcile with the same range\<close>

lemma fullFetch_result:
  "snd (FetchTrades Local address days now' responses) = Some (Inr fetched) \<Longrightarrow>
   snd (fullFetch \<rho> Local rs address days now now' responses)
     = Some (rs\<lparr>accountCache := (accountCache rs)(address \<mapsto>
                  \<lparr>trades = fetched, lastFetchTime = now, cachedDays = days\<rparr>),
               dailyPnL := calculateDailyPnLFromTrades \<rho> fetched\<rparr>, None)"
  by (cases "FetchTrades Local address days now' responses") (simp add: fullFetch_def)

lemma cacheReuse_result:
  "snd (FetchTradesInRange Local address (lastFetchTime cache) now responses)
     = Some (Inr fetched) \<Longrightarrow>
   snd (cacheReuse \<rho> Local rs address cache days now responses)
     = Some (rs\<lparr>accountCache := (accountCache rs)(address \<mapsto>
                  cache\<lparr>trades := mergedWith \<rho> (trades cache) fetched, lastFetchTime := now\<rparr>),
               dailyPnL := calculateDailyPnLFromTrades \<rho>
                 (filterTradesByTime (mergedWith \<rho> (trades cache) fetched)
                    (Add now (minusDays days)))\<rparr>, None)"
  by (cases "FetchTradesInRange Local address (lastFetchTime cache) now responses")
     (simp add: cacheReuse_def mergedWith_def Let_def)

lemma convert_yesterdayFill: "convertFills utcZone [] [yesterdayFill] = [yesterdayTrade]"
  by code_simp

lemma table_of_yesterdayTrade:
  "calculateDailyPnLFromTrades inOrder [yesterdayTrade]
   = [(''2025-01-01'',
        \<lparr>Date = ''2025-01-01'', TradeCount = 1, DailyPnL = - 50000, CumulativePnL = 0\<rparr>)]"
  by code_simp

lemma table_of_nothing: "calculateDailyPnLFromTrades inOrder [] = []"
  by (simp add: calculateDailyPnLFromTrades_def rangeOver_def inOrder_def)

lemma first_fetch:
  "snd (FetchAndReconcile inOrder utcZone NewReconciliationService ''0xabc'' 1
          tenOClock tenOClock [Inr [yesterdayFill]])
   = Some (afterFirstFetch, None)"
proof -
  have "\<not> reusesCache NewReconciliationService ''0xabc'' 1 tenOClock"
    by (simp add: reusesCache_def NewReconciliationService_def)
  moreover have "snd (FetchTrades utcZone ''0xabc'' 1 tenOClock [Inr [yesterdayFill]])
                 = Some (Inr [yesterdayTrade])"
    by (simp add: FetchTrades_def FetchTradesInRange_def MaxTradesPerBatch_def Let_def
          convert_yesterdayFill del: convertFills.simps)
  ultimately show ?thesis
    by (simp add: FetchAndReconcile_full fullFetch_result table_of_yesterdayTrade
          afterFirstFetch_def NewReconciliationService_def)
qed

lemma second_fetch_window:
  "FetchTradesInRange utcZone ''0xabc'' tenOClock halfPastTen [Inr []]
   = ([Post ''0xabc'' 1735812000000 1735813800000], Some (Inr []))"
  by (simp add: FetchTradesInRange_def UnixMilli_def tenOClock_def halfPastTen_def Let_def)

lemma same_range_again:
  "sameRange \<lparr>trades = [yesterdayTrade], lastFetchTime = tenOClock, cachedDays = 1\<rparr> 1 halfPastTen"
  by (simp add: sameRange_def Sub_def Hour_def tenOClock_def halfPastTen_def)

lemma yesterdayTrade_filtered:
  "filterTradesByTime [yesterdayTrade] (Add halfPastTen (minusDays 1)) = []"
  by (simp add: filterTradesByTime_def After_def Equal_def Add_def minusDays_def
        halfPastTen_def yesterdayTrade_def)

text \<open>
  Claim C1 at a concrete input. A first reconcile of one day at 10:00 caches a trade of
  the day before, 10:10. A second reconcile of one day at 10:30 (same range, cache
  fresh) fetches from the last fetch time to now and finds nothing; the cache still
  holds the trade, but the daily table is computed from the cache filtered to the last
  24 hours and is empty, where the table of the full cache has a record.
\<close>

theorem C1_equal_window_is_filtered:
  "snd (FetchAndReconcile inOrder utcZone NewReconciliationService ''0xabc'' 1
          tenOClock tenOClock [Inr [yesterdayFill]])
     = Some (afterFirstFetch, None)
   \<and> sameRange \<lparr>trades = [yesterdayTrade], lastFetchTime = tenOClock, cachedDays = 1\<rparr>
        1 halfPastTen
   \<and> FetchAndReconcile inOrder utcZone afterFirstFetch ''0xabc'' 1
        halfPastTen halfPastTen [Inr []]
     = ([Post ''0xabc'' 1735812000000 1735813800000],
        Some (\<lparr>accountCache = [''0xabc'' \<mapsto>
                  \<lparr>trades = [yesterdayTrade], lastFetchTime = halfPastTen, cachedDays = 1\<rparr>],
                dailyPnL = []\<rparr>, None))
   \<and> calculateDailyPnLFromTrades inOrder [yesterdayTrade] \<noteq> []"
  (is "?A \<and> ?B \<and> ?C \<and> ?D")
proof (intro conjI)
  show ?A by (rule first_fetch)
  show ?B by (rule same_range_again)
  show ?D by (simp add: table_of_yesterdayTrade)
  have z: "\<not> IsZero tenOClock" by (simp add: IsZero_def tenOClock_def)
  have r: "reusesCache afterFirstFetch ''0xabc'' 1 halfPastTen"
    using same_range_again z by (simp add: reusesCache_def afterFirstFetch_def)
  have c: "accountCache afterFirstFetch ''0xabc''
           = Some \<lparr>trades = [yesterdayTrade], lastFetchTime = tenOClock, cachedDays = 1\<rparr>"
    by (simp add: afterFirstFetch_def)
  show ?C
    unfolding FetchAndReconcile_reuse[OF c r]
    by (simp add: cacheReuse_def second_fetch_window yesterdayTrade_filtered table_of_nothing
          afterFirstFetch_def)
qed

section \<open>Merge: length and idempotence\<close>

lemma mergeTrades_self:
  assumes "distinct (map tradeKey A)"
  shows "mergeTrades \<rho> A A
         = sort_key instantOf (map snd (rangeOver \<rho> (map (\<lambda>t. (tradeKey t, t)) A)))"
proof -
  define tm where "tm = map (\<lambda>t. (tradeKey t, t)) A"
  have 1: "putTrades [] A = tm"
    unfolding tm_def using putTrades_fresh[OF assms, of "[]"] by simp
  have fst_tm: "map fst tm = map tradeKey A"
    unfolding tm_def by (simp add: comp_def)
  have "\<And>t. t \<in> set A \<Longrightarrow> map_of tm (tradeKey t) = Some t"
  proof -
    fix t assume "t \<in> set A"
    then have "(tradeKey t, t) \<in> (\<lambda>t. (tradeKey t, t)) ` set A" by (rule imageI)
    then have "(tradeKey t, t) \<in> set tm" unfolding tm_def by (simp only: set_map)
    moreover have "distinct (map fst tm)" using assms by (simp only: fst_tm)
    ultimately show "map_of tm (tradeKey t) = Some t" by (simp only: map_of_eq_Some_iff)
  qed
  then have 2: "putTrades tm A = tm" by (rule putTrades_again)
  show ?thesis
    unfolding tm_def[symmetric] by (simp only: mergeTrades_def Let_def 1 2 sortByTime_instantOf)
qed

text \<open>
  Claim C7, amended. For all trade sequences A whose entries have pairwise distinct
  identity triples and sides free of the separator of the key, and all B such that
  every element of B has an identity triple that also appears in A, the length of
  merge(A, B) equals the length of A.
\<close>

theorem C7_merge_dedup_length:
  assumes "valid_order \<rho>" and "distinct (map identity A)"
    and "\<forall>a \<in> set A. CHR ''_'' \<notin> set (Side a)"
    and "\<forall>b \<in> set B. \<exists>a \<in> set A. identity b = identity a"
  shows "length (mergeTrades \<rho> A B) = length A"
proof -
  have d: "distinct (map tradeKey A)" using assms(2,3) by (rule distinct_identity_keys)
  have "\<forall>b \<in> set B. \<exists>a \<in> set A. tradeKey b = tradeKey a"
    using assms(4) by (meson tradeKey_identity)
  with assms(1) d show ?thesis by (rule mergeTrades_length_keys)
qed

text \<open>
  Claim C5, amended. For every trade sequence A in strictly increasing time order whose
  entries have pairwise distinct identity triples and sides free of the separator of the
  key, merging A with itself yields A: the same members in the same order.
\<close>

theorem C5_merge_idempotent_when_sorted:
  assumes "valid_order \<rho>" and "sorted_wrt (\<lambda>a b. instantOf a < instantOf b) A"
    and "distinct (map identity A)" and "\<forall>a \<in> set A. CHR ''_'' \<notin> set (Side a)"
  shows "mergeTrades \<rho> A A = A"
proof -
  have d: "distinct (map tradeKey A)" using assms(3,4) by (rule distinct_identity_keys)
  with assms(1,2) show ?thesis by (rule mergeTrades_self_keys_sorted)
qed

lemma collision: "tradeKey underscoreCoinTrade = tradeKey underscoreSideTrade"
  by (simp add: tradeKey_def underscoreCoinTrade_def underscoreSideTrade_def)

text \<open>
  Claim C7 as stated fails when A itself holds one identity twice: the merge keeps one.
  It also fails for two entries of A with different triples and one key, which takes a
  side that contains the separator.
\<close>

theorem C7_counterexample:
  "set (map identity [eveningTrade]) \<subseteq> set (map identity [eveningTrade, eveningTrade])
   \<and> length (mergeTrades inOrder [eveningTrade, eveningTrade] [eveningTrade])
       \<noteq> length [eveningTrade, eveningTrade]
   \<and> distinct (map identity [underscoreCoinTrade, underscoreSideTrade])
   \<and> length (mergeTrades inOrder [underscoreCoinTrade, underscoreSideTrade] [])
       \<noteq> length [underscoreCoinTrade, underscoreSideTrade]"
  by (simp add: length_mergeTrades[OF valid_inOrder] collision)
     (simp add: identity_def underscoreCoinTrade_def underscoreSideTrade_def)

lemma ids:
  "identity eveningTrade \<noteq> identity morningTrade"
  "identity eveningTrade \<noteq> identity eveningEthTrade"
  by (simp_all add: identity_def eveningTrade_def morningTrade_def eveningEthTrade_def)

lemma sides:
  "CHR ''_'' \<notin> set (Side eveningTrade)" "CHR ''_'' \<notin> set (Side morningTrade)"
  "CHR ''_'' \<notin> set (Side eveningEthTrade)"
  by (simp_all add: eveningTrade_def morningTrade_def eveningEthTrade_def)

lemma instants:
  "instantOf eveningTrade = 1735761600000000000"
  "instantOf morningTrade = 1735779600000000000"
  "instantOf eveningEthTrade = 1735761600000000000"
  by (simp_all add: instantOf_def eveningTrade_def morningTrade_def eveningEthTrade_def)

theorem C7_witness:
  "valid_order inOrder \<and> distinct (map identity [eveningTrade, morningTrade])
   \<and> CHR ''_'' \<notin> set (Side eveningTrade) \<and> CHR ''_'' \<notin> set (Side morningTrade)
   \<and> identity morningTrade \<in> set (map identity [eveningTrade, morningTrade])
   \<and> length (mergeTrades inOrder [eveningTrade, morningTrade] [morningTrade]) = 2"
proof -
  have h: "distinct (map identity [eveningTrade, morningTrade])"
    "\<forall>a \<in> set [eveningTrade, morningTrade]. CHR ''_'' \<notin> set (Side a)"
    "\<forall>b \<in> set [morningTrade]. \<exists>a \<in> set [eveningTrade, morningTrade]. identity b = identity a"
    by (simp_all add: ids sides)
  show ?thesis using C7_merge_dedup_length[OF valid_inOrder h] valid_inOrder h by simp
qed

text \<open>
  Claim C5 as stated fails: the merge sorts a sequence that is not in time order, drops
  the second of two entries with one identity, and may exchange two entries of the same
  instant (here when the map is visited in reverse).
\<close>

theorem C5_counterexample:
  "mergeTrades inOrder [morningTrade, eveningTrade] [morningTrade, eveningTrade]
     \<noteq> [morningTrade, eveningTrade]
   \<and> mergeTrades inOrder [eveningTrade, eveningTrade] [eveningTrade, eveningTrade]
     \<noteq> [eveningTrade, eveningTrade]
   \<and> mergeTrades reverseOrder [eveningTrade, eveningEthTrade] [eveningTrade, eveningEthTrade]
     \<noteq> [eveningTrade, eveningEthTrade]"
  (is "?A \<and> ?B \<and> ?C")
proof (intro conjI)
  have "\<not> sorted (map instantOf [morningTrade, eveningTrade])" by (simp add: instants)
  then show ?A using sorted_mergeTrades by metis
  have "length (mergeTrades inOrder [eveningTrade, eveningTrade] [eveningTrade, eveningTrade]) = 1"
    by (simp add: length_mergeTrades[OF valid_inOrder])
  then show ?B by auto
  have d: "distinct (map tradeKey [eveningTrade, eveningEthTrade])"
    by (rule distinct_identity_keys) (simp_all add: ids sides)
  have "mergeTrades reverseOrder [eveningTrade, eveningEthTrade] [eveningTrade, eveningEthTrade]
        = [eveningEthTrade, eveningTrade]"
    by (simp add: mergeTrades_self[OF d] rangeOver_def reverseOrder_def instants)
  moreover have "eveningEthTrade \<noteq> eveningTrade"
    by (simp add: eveningTrade_def eveningEthTrade_def)
  ultimately show ?C by simp
qed

theorem C5_witness:
  "valid_order reverseOrder
   \<and> sorted_wrt (\<lambda>a b. instantOf a < instantOf b) [eveningTrade, morningTrade]
   \<and> distinct (map identity [eveningTrade, morningTrade])
   \<and> CHR ''_'' \<notin> set (Side eveningTrade) \<and> CHR ''_'' \<notin> set (Side morningTrade)
   \<and> mergeTrades reverseOrder [eveningTrade, morningTrade] [eveningTrade, morningTrade]
       = [eveningTrade, morningTrade]"
proof -
  have h: "sorted_wrt (\<lambda>a b. instantOf a < instantOf b) [eveningTrade, morningTrade]"
    "distinct (map identity [eveningTrade, morningTrade])"
    "\<forall>a \<in> set [eveningTrade, morningTrade]. CHR ''_'' \<notin> set (Side a)"
    by (simp_all add: ids sides instants)
  show ?thesis
    using C5_merge_idempotent_when_sorted[OF valid_reverseOrder h] valid_reverseOrder h
    by simp
qed

section \<open>The cached list after reconcile\<close>

lemma convert_twice:
  "convertFills colomboZone [] [eveningFill, eveningFill] = [eveningTrade, eveningTrade]"
  by code_simp

text \<open>
  Claim C4 as stated fails in the full-fetch branch: when the source returns a fill
  twice, the successful reconcile caches two entries with one identity triple.
\<close>

theorem C4_counterexample:
  "snd (FetchAndReconcile inOrder colomboZone NewReconciliationService ''0xabc'' 1
          tenOClock tenOClock [Inr [eveningFill, eveningFill]])
     = Some (\<lparr>accountCache = [''0xabc'' \<mapsto>
                 \<lparr>trades = [eveningTrade, eveningTrade], lastFetchTime = tenOClock,
                  cachedDays = 1\<rparr>],
               dailyPnL = calculateDailyPnLFromTrades inOrder [eveningTrade, eveningTrade]\<rparr>,
             None)
   \<and> \<not> cacheInvariant [eveningTrade, eveningTrade]"
  (is "?A \<and> ?B")
proof (rule conjI)
  have "\<not> reusesCache NewReconciliationService ''0xabc'' 1 tenOClock"
    by (simp add: reusesCache_def NewReconciliationService_def)
  moreover have "snd (FetchTrades colomboZone ''0xabc'' 1 tenOClock
                        [Inr [eveningFill, eveningFill]])
                 = Some (Inr [eveningTrade, eveningTrade])"
    by (simp add: FetchTrades_def FetchTradesInRange_def MaxTradesPerBatch_def Let_def
          convert_twice del: convertFills.simps)
  ultimately show ?A
    by (simp add: FetchAndReconcile_full fullFetch_result NewReconciliationService_def)
  show ?B by (simp add: cacheInvariant_def)
qed

text \<open>
  Claim C4, amended. After a successful reconcile through an incremental branch the
  account's cached list is in non-decreasing time order and has no two entries with the
  same identity triple, provided the fetch returned at least one trade (the list is then
  the merge) or the list was so before (it is then unchanged). The full-fetch branch
  stores the fetched list as the source returned it.
\<close>

theorem C4_cache_invariant_by_branch:
  assumes "valid_order \<rho>"
    and "snd (FetchAndReconcile \<rho> Local rs address days now now' responses) = Some (rs', None)"
  shows "\<exists>cache'. accountCache rs' address = Some cache' \<and>
           (if reusesCache rs address days now
            then \<exists>cache fetched.
                   accountCache rs address = Some cache
                   \<and> snd (FetchTradesInRange Local address (lastFetchTime cache) now responses)
                       = Some (Inr fetched)
                   \<and> trades cache' = mergedWith \<rho> (trades cache) fetched
                   \<and> (fetched \<noteq> [] \<or> cacheInvariant (trades cache)
                        \<longrightarrow> cacheInvariant (trades cache'))
            else \<exists>fetched.
                   snd (FetchTrades Local address days now' responses) = Some (Inr fetched)
                   \<and> trades cache' = fetched)"
proof (cases "reusesCache rs address days now")
  case True
  then obtain cache where c: "accountCache rs address = Some cache"
    by (auto simp: reusesCache_def split: option.splits)
  from assms(2) have "snd (cacheReuse \<rho> Local rs address cache days now responses) = Some (rs', None)"
    by (simp add: FetchAndReconcile_reuse[OF c True])
  from cacheReuse_success[OF this] obtain fetched where
    f: "snd (FetchTradesInRange Local address (lastFetchTime cache) now responses) = Some (Inr fetched)"
    and a: "accountCache rs' = (accountCache rs)(address \<mapsto>
               cache\<lparr>trades := mergedWith \<rho> (trades cache) fetched, lastFetchTime := now\<rparr>)"
    by blast
  have "fetched \<noteq> [] \<or> cacheInvariant (trades cache)
          \<longrightarrow> cacheInvariant (mergedWith \<rho> (trades cache) fetched)"
    by (auto simp: mergedWith_def cacheInvariant_mergeTrades[OF assms(1)])
  with True c f a show ?thesis by simp
next
  case False
  from assms(2) have "snd (fullFetch \<rho> Local rs address days now now' responses) = Some (rs', None)"
    by (simp add: FetchAndReconcile_full[OF False])
  from fullFetch_success[OF this] False show ?thesis by auto
qed

lemma key_eveningTrade: "tradeKey eveningTrade = ''1735761600000_BTC_B''"
  by (simp add: tradeKey_def UnixMilli_def formatInt_def digits.simps eveningTrade_def)

lemma key_morningTrade: "tradeKey morningTrade = ''1735779600000_BTC_A''"
  by (simp add: tradeKey_def UnixMilli_def formatInt_def digits.simps morningTrade_def)

lemma sortByTime_pair: "sortByTime [eveningTrade, morningTrade] = [eveningTrade, morningTrade]"
  by (simp add: sortByTime_instantOf instants)

lemma merge_duplicates:
  "mergeTrades inOrder [eveningTrade, eveningTrade] [morningTrade] = [eveningTrade, morningTrade]"
  by (simp add: mergeTrades_def Let_def key_eveningTrade key_morningTrade rangeOver_def
        inOrder_def sortByTime_pair)

lemma convert_morningFill: "convertFills colomboZone [] [morningFill] = [morningTrade]"
  by code_simp

lemma morning_fetch:
  "snd (FetchTradesInRange colomboZone ''0xabc'' tenOClock halfPastTen [Inr [morningFill]])
   = Some (Inr [morningTrade])"
  by (simp add: FetchTradesInRange_def MaxTradesPerBatch_def Let_def convert_morningFill
        del: convertFills.simps)

lemma filter_pair:
  "filterTradesByTime [eveningTrade, morningTrade] (Add halfPastTen (minusDays 1))
   = [eveningTrade, morningTrade]"
  by (simp add: filterTradesByTime_def After_def Equal_def Add_def minusDays_def
        halfPastTen_def eveningTrade_def morningTrade_def)

lemma duplicate_reuse: "reusesCache duplicateState ''0xabc'' 1 halfPastTen"
  by (simp add: reusesCache_def duplicateState_def smallerRange_def Sub_def Hour_def IsZero_def
        tenOClock_def halfPastTen_def)

lemma second_reconcile:
  "snd (FetchAndReconcile inOrder colomboZone duplicateState ''0xabc'' 1
          halfPastTen halfPastTen [Inr [morningFill]])
   = Some (\<lparr>accountCache = [''0xabc'' \<mapsto>
               \<lparr>trades = [eveningTrade, morningTrade], lastFetchTime = halfPastTen,
                cachedDays = 1\<rparr>],
             dailyPnL = calculateDailyPnLFromTrades inOrder [eveningTrade, morningTrade]\<rparr>,
           None)"
proof -
  have c: "accountCache duplicateState ''0xabc''
           = Some \<lparr>trades = [eveningTrade, eveningTrade], lastFetchTime = tenOClock,
                   cachedDays = 1\<rparr>"
    by (simp add: duplicateState_def)
  have m: "mergedWith inOrder [eveningTrade, eveningTrade] [morningTrade]
           = [eveningTrade, morningTrade]"
    by (simp add: mergedWith_def merge_duplicates)
  show ?thesis
    unfolding FetchAndReconcile_reuse[OF c duplicate_reuse]
    using cacheReuse_result[of colomboZone "''0xabc''"
        "\<lparr>trades = [eveningTrade, eveningTrade], lastFetchTime = tenOClock, cachedDays = 1\<rparr>"
        halfPastTen "[Inr [morningFill]]" "[morningTrade]" inOrder duplicateState 1]
      morning_fetch
    by (simp add: m filter_pair duplicateState_def)
qed

theorem C4_witness:
  "valid_order inOrder
   \<and> snd (FetchAndReconcile inOrder colomboZone duplicateState ''0xabc'' 1
            halfPastTen halfPastTen [Inr [morningFill]])
     = Some (\<lparr>accountCache = [''0xabc'' \<mapsto>
                 \<lparr>trades = [eveningTrade, morningTrade], lastFetchTime = halfPastTen,
                  cachedDays = 1\<rparr>],
               dailyPnL = calculateDailyPnLFromTrades inOrder [eveningTrade, morningTrade]\<rparr>,
             None)
   \<and> reusesCache duplicateState ''0xabc'' 1 halfPastTen
   \<and> \<not> cacheInvariant [eveningTrade, eveningTrade]
   \<and> cacheInvariant [eveningTrade, morningTrade]"
proof -
  have n: "\<not> cacheInvariant [eveningTrade, eveningTrade]" by (simp add: cacheInvariant_def)
  have "cacheInvariant [eveningTrade, morningTrade]"
    using C4_cache_invariant_by_branch[OF valid_inOrder second_reconcile] duplicate_reuse morning_fetch
    by (auto simp: duplicateState_def)
  with valid_inOrder second_reconcile duplicate_reuse n show ?thesis by simp
qed

end
